theory Spec2Isabelle
  imports Main "HOL-Library.Char_ord" "HOL-Library.List_Lexorder"
begin

section \<open>The plugin processor of arago.common.processor\<close>

text \<open>
  The theory embeds \<^verbatim>\<open>src/arago/common/processor/processor.py\<close>: the class
  \<^verbatim>\<open>Processor\<close> with its methods \<^verbatim>\<open>decide_on_plugin\<close>,
  \<^verbatim>\<open>process_issue\<close>, \<^verbatim>\<open>apply_all_plugins_on_value\<close>,
  \<^verbatim>\<open>execute_plugin_with_context\<close> and \<^verbatim>\<open>test_plugins_on_value\<close>.
  Plugin discovery (\<^verbatim>\<open>walk_package\<close>) only fills the dictionary
  \<^verbatim>\<open>self.plugins\<close>, which is an input here.
\<close>

subsection \<open>Data\<close>

text \<open>
  The issue is a Python dictionary that every collaborator receives by reference. The two
  keys the processor itself reads and writes are fields of their own; \<open>payload\<close> stands for
  everything else a plugin or the decision service can read or change (the other keys, and
  their own attributes). The two keys are always there and hold a string and an integer
  (\<^verbatim>\<open>auto_reward\<close> is an integer too): a collaborator that deletes one of them or
  writes a value of another type is not covered.
\<close>

record 'p issue =
  current_phase :: string
  reward :: int
  payload :: 'p

text \<open>
  What \<^verbatim>\<open>plugin.test(issue)\<close> gives back: an exception (a subclass of
  \<^verbatim>\<open>Exception\<close>), a falsy value, a list of contexts, or one truthy value that is
  not a list. The empty list is falsy in Python; \<^verbatim>\<open>ContextList []\<close> appends
  nothing, which is the same.
\<close>

datatype 'c test_result = TestRaises | Falsy | ContextList "'c list" | Context 'c

datatype outcome = Returns | Raises

text \<open>
  A plugin object: \<open>kind\<close> is \<^verbatim>\<open>type(x).__name__\<close>. Both methods get the issue by
  reference, so both return the issue as they leave it, also when they raise. \<open>Raises\<close>
  and \<open>TestRaises\<close> are exceptions that \<^verbatim>\<open>except Exception\<close> catches.
  \<open>description\<close> is the attribute that only the constructor of \<^verbatim>\<open>Plugin\<close> sets:
  it is \<open>None\<close> for an object of a subclass whose own constructor does not call that
  one. The processor reads it for three of its log lines (lines 126, 131 and 147), and
  reading it from an object that does not have it raises AttributeError.
\<close>

record ('p, 'c) plugin =
  kind :: string
  description :: "string option"
  test :: "'p issue \<Rightarrow> 'c test_result \<times> 'p issue"
  process :: "'p issue \<Rightarrow> 'c \<Rightarrow> outcome \<times> 'p issue"

text \<open>
  Plugin objects are compared by identity (\<^verbatim>\<open>a in possible\<close>,
  \<^verbatim>\<open>possible.remove(a)\<close>), so the lists hold references and the processor maps
  a reference to the object behind it.
\<close>

type_synonym plugin_ref = nat

type_synonym 'c candidate = "plugin_ref \<times> 'c"

datatype decision = DecideRaises | Decision string

record 'p decision_service =
  decide :: "'p issue \<Rightarrow> string list \<Rightarrow> decision \<times> 'p issue"
  finish_episode :: "'p issue \<Rightarrow> outcome \<times> 'p issue"

text \<open>
  The processor: \<open>plugins\<close> is the dictionary \<^verbatim>\<open>self.plugins\<close> from phase name to
  plugin list (the first binding of a key counts), \<open>ds\<close> is \<open>None\<close> when
  \<^verbatim>\<open>self.ds\<close> is falsy, \<open>str_of\<close> is Python's \<^verbatim>\<open>str\<close> on contexts.
\<close>

record ('p, 'c) processor =
  plugins :: "(string \<times> plugin_ref list) list"
  plugin_at :: "plugin_ref \<Rightarrow> ('p, 'c) plugin"
  str_of :: "'c \<Rightarrow> string"
  ds :: "'p decision_service option"
  auto_reward :: int

text \<open>
  What the processor does to the outside, in order: its log lines and its calls of
  collaborators. \<open>LogExecuting\<close> is the debug line of
  \<^verbatim>\<open>execute_plugin_with_context\<close> (line 126), \<open>CallProcess\<close> the call of
  \<^verbatim>\<open>plugin.process\<close> that follows it (line 128), \<open>CallTest\<close> the call of
  \<^verbatim>\<open>plugin.test\<close> (line 139).
\<close>

datatype 'c event =
    LogPhase string
  | LogTestPlugins
  | CallTest plugin_ref
  | WarnTest plugin_ref
  | LogNoPossible string
  | CallDecide "string list"
  | LogExecuting plugin_ref 'c
  | CallProcess plugin_ref 'c
  | WarnExecute plugin_ref 'c
  | CallFinishEpisode

record ('p, 'c) run =
  issue :: "'p issue"
  log :: "'c event list"

datatype error = ArbiterError | ValueError | IndexError | KeyError | AttributeError

datatype ('p, 'c) result = Raised error "('p, 'c) run" | Returned "('p, 'c) run"

subsection \<open>String helpers\<close>

definition endswith :: "string \<Rightarrow> string \<Rightarrow> bool" where
  "endswith s suffix =
     (length suffix \<le> length s \<and> drop (length s - length suffix) s = suffix)"

text \<open>\<^verbatim>\<open>s.split(sep)\<close> for a separator of one character.\<close>

fun split :: "char \<Rightarrow> string \<Rightarrow> string list" where
  "split sep [] = [[]]"
| "split sep (c # cs) =
     (if c = sep then [] # split sep cs
      else (case split sep cs of
              [] \<Rightarrow> [[c]]
            | part # parts \<Rightarrow> (c # part) # parts))"

subsection \<open>The methods of Processor\<close>

text \<open>
  \<^verbatim>\<open>execute_plugin_with_context\<close>. The debug line stands before the
  \<^verbatim>\<open>try\<close>: when the plugin has no description, formatting it raises and
  \<^verbatim>\<open>process\<close> is not called. The warning of the handler reads the description
  again, of an object that then has it.
\<close>

definition execute_plugin_with_context ::
  "('p, 'c) processor \<Rightarrow> ('p, 'c) run \<Rightarrow> plugin_ref \<Rightarrow> 'c \<Rightarrow> ('p, 'c) result" where
  "execute_plugin_with_context pr r plugin context =
     (case description (plugin_at pr plugin) of
        None \<Rightarrow> Raised AttributeError r
      | Some d \<Rightarrow>
          (case process (plugin_at pr plugin) (issue r) context of
             (Returns, i) \<Rightarrow>
               Returned \<lparr>issue = i,
                 log = log r @ [LogExecuting plugin context, CallProcess plugin context]\<rparr>
           | (Raises, i) \<Rightarrow>
               Returned \<lparr>issue = i,
                 log = log r @ [LogExecuting plugin context, CallProcess plugin context,
                                WarnExecute plugin context]\<rparr>))"

text \<open>
  The loop \<^verbatim>\<open>for plugin in plugins\<close> of \<^verbatim>\<open>test_plugins_on_value\<close>. The
  handler of an exception of \<^verbatim>\<open>test\<close> writes a warning with the plugin's
  description; when the plugin has none, the handler itself raises AttributeError, which
  nothing catches. \<open>Inl\<close> is an exception, with the run as it stands then.
\<close>

fun test_plugins_loop ::
  "('p, 'c) processor \<Rightarrow> plugin_ref list \<Rightarrow> 'c candidate list \<Rightarrow> ('p, 'c) run \<Rightarrow>
     error \<times> ('p, 'c) run + 'c candidate list \<times> ('p, 'c) run" where
  "test_plugins_loop pr [] passed_test_plugins r = Inr (passed_test_plugins, r)"
| "test_plugins_loop pr (plugin # rest) passed_test_plugins r =
     (case test (plugin_at pr plugin) (issue r) of
        (TestRaises, i) \<Rightarrow>
          (case description (plugin_at pr plugin) of
             None \<Rightarrow> Inl (AttributeError, \<lparr>issue = i, log = log r @ [CallTest plugin]\<rparr>)
           | Some d \<Rightarrow>
               test_plugins_loop pr rest passed_test_plugins
                 \<lparr>issue = i, log = log r @ [CallTest plugin, WarnTest plugin]\<rparr>)
      | (Falsy, i) \<Rightarrow>
          test_plugins_loop pr rest passed_test_plugins
            \<lparr>issue = i, log = log r @ [CallTest plugin]\<rparr>
      | (ContextList contexts, i) \<Rightarrow>
          test_plugins_loop pr rest (passed_test_plugins @ map (Pair plugin) contexts)
            \<lparr>issue = i, log = log r @ [CallTest plugin]\<rparr>
      | (Context contexts, i) \<Rightarrow>
          test_plugins_loop pr rest (passed_test_plugins @ [(plugin, contexts)])
            \<lparr>issue = i, log = log r @ [CallTest plugin]\<rparr>)"

definition test_plugins_on_value ::
  "('p, 'c) processor \<Rightarrow> ('p, 'c) run \<Rightarrow> plugin_ref list \<Rightarrow>
     error \<times> ('p, 'c) run + 'c candidate list \<times> ('p, 'c) run" where
  "test_plugins_on_value pr r plugins_arg =
     test_plugins_loop pr plugins_arg [] (r\<lparr>log := log r @ [LogTestPlugins]\<rparr>)"

text \<open>
  \<^verbatim>\<open>decide_on_plugin\<close>. \<^verbatim>\<open>possible[0]\<close> raises IndexError on the empty
  list; unpacking \<^verbatim>\<open>decision.split(':')\<close> into two names raises ValueError unless
  there are exactly two parts; \<^verbatim>\<open>[...][0]\<close> raises IndexError when no candidate
  matches. \<open>DecideRaises\<close> is an exception out of \<^verbatim>\<open>self.ds.decide\<close>, or an
  answer that is no string and cannot be split. \<open>CallDecide\<close> records the call with the
  labels passed as \<^verbatim>\<open>PossibleKIs\<close>.
\<close>

definition possible_kis_of ::
  "('p, 'c) processor \<Rightarrow> 'c candidate list \<Rightarrow> string list" where
  "possible_kis_of pr possible =
     map (\<lambda>(x, y). kind (plugin_at pr x) @ '':'' @ str_of pr y) possible"

definition decide_on_plugin ::
  "('p, 'c) processor \<Rightarrow> ('p, 'c) run \<Rightarrow> 'c candidate list \<Rightarrow>
     (error + 'c candidate) \<times> ('p, 'c) run" where
  "decide_on_plugin pr r possible =
     (case possible of
        [] \<Rightarrow> (Inl IndexError, r)
      | plugin # _ \<Rightarrow>
          (case ds pr of
             None \<Rightarrow> (Inr plugin, r)
           | Some d \<Rightarrow>
               (let possible_kis = possible_kis_of pr possible in
                case decide d (issue r) possible_kis of
                  (DecideRaises, i) \<Rightarrow>
                    (Inl ArbiterError, \<lparr>issue = i, log = log r @ [CallDecide possible_kis]\<rparr>)
                | (Decision decision, i) \<Rightarrow>
                    (let r1 = \<lparr>issue = i, log = log r @ [CallDecide possible_kis]\<rparr> in
                     case split CHR '':'' decision of
                       [best_plugin, best_context] \<Rightarrow>
                         (case filter (\<lambda>(x, y). kind (plugin_at pr x) = best_plugin
                                          \<and> str_of pr y = best_context) possible of
                            [] \<Rightarrow> (Inl IndexError, r1)
                          | p # _ \<Rightarrow> (Inr p, r1))
                     | _ \<Rightarrow> (Inl ValueError, r1)))))"

text \<open>
  The loop \<^verbatim>\<open>for p in possible\<close> of the branch for \<^verbatim>\<open>-parallel\<close>
  (lines 103 to 105).
\<close>

fun execute_all ::
  "('p, 'c) processor \<Rightarrow> 'c candidate list \<Rightarrow> 'c candidate list \<Rightarrow> ('p, 'c) run \<Rightarrow>
     error \<times> ('p, 'c) run + 'c candidate list \<times> ('p, 'c) run" where
  "execute_all pr [] any_executed r = Inr (any_executed, r)"
| "execute_all pr (p # rest) any_executed r =
     (case execute_plugin_with_context pr r (fst p) (snd p) of
        Raised e r' \<Rightarrow> Inl (e, r')
      | Returned r' \<Rightarrow> execute_all pr rest (any_executed @ [p]) r')"

text \<open>
  One pass through the body of \<^verbatim>\<open>while True\<close> up to line 113: either the loop is
  left there (\<open>Break\<close>: no candidates, the \<^verbatim>\<open>-alternative\<close> branch, or an
  exception), or the two checks of lines 115 to 118 follow (\<open>Checks\<close>, with the new
  \<^verbatim>\<open>any_executed\<close>).
\<close>

datatype ('p, 'c) round = Break "('p, 'c) result" | Checks "'c candidate list" "('p, 'c) run"

definition phase_round ::
  "('p, 'c) processor \<Rightarrow> string \<Rightarrow> plugin_ref list \<Rightarrow> 'c candidate list \<Rightarrow> ('p, 'c) run \<Rightarrow>
     ('p, 'c) round" where
  "phase_round pr directory subplugins any_executed r =
     (case test_plugins_on_value pr r subplugins of
        Inl (e, r1) \<Rightarrow> Break (Raised e r1)
      | Inr (tested, r1) \<Rightarrow>
          (let possible = fold remove1 any_executed tested in
           if length possible < 1 then
             Break (Returned (r1\<lparr>log := log r1 @ [LogNoPossible directory]\<rparr>))
           else if endswith directory ''-parallel'' then
             (case execute_all pr possible any_executed r1 of
                Inl (e, r2) \<Rightarrow> Break (Raised e r2)
              | Inr (any_executed', r2) \<Rightarrow> Checks any_executed' r2)
           else if endswith directory ''-alternative'' then
             (case decide_on_plugin pr r1 possible of
                (Inl e, r2) \<Rightarrow> Break (Raised e r2)
              | (Inr p, r2) \<Rightarrow> Break (execute_plugin_with_context pr r2 (fst p) (snd p)))
           else
             (let p = last possible in
              case execute_plugin_with_context pr r1 (fst p) (snd p) of
                Raised e r2 \<Rightarrow> Break (Raised e r2)
              | Returned r2 \<Rightarrow> Checks (any_executed @ [p]) r2)))"

text \<open>
  The loop \<^verbatim>\<open>while True\<close> (lines 93 to 118). It need not end, so it is a partial
  function: \<open>None\<close> is a phase that runs forever.
\<close>

partial_function (option) phase_rounds ::
  "('p, 'c) processor \<Rightarrow> string \<Rightarrow> plugin_ref list \<Rightarrow> 'c candidate list \<Rightarrow> ('p, 'c) run \<Rightarrow>
     ('p, 'c) result option" where
  "phase_rounds pr directory subplugins any_executed r =
     (case phase_round pr directory subplugins any_executed r of
        Break res \<Rightarrow> Some res
      | Checks any_executed' r' \<Rightarrow>
          if current_phase (issue r') \<noteq> directory then Some (Returned r')
          else if length any_executed' = length any_executed then Some (Returned r')
          else phase_rounds pr directory subplugins any_executed' r')"

declare phase_rounds.simps [code]

text \<open>
  The rounds an invocation of a phase begins: \<open>round_begins pr directory subplugins r0
  any_executed r\<close> says that the invocation that starts in the run \<open>r0\<close>, with an empty
  \<^verbatim>\<open>any_executed\<close>, comes to the head of the loop \<^verbatim>\<open>while True\<close> with this
  \<^verbatim>\<open>any_executed\<close> in the run \<open>r\<close>. Another round follows a round that passed both
  checks of lines 115 to 118.
\<close>

inductive round_begins ::
  "('p, 'c) processor \<Rightarrow> string \<Rightarrow> plugin_ref list \<Rightarrow> ('p, 'c) run \<Rightarrow>
     'c candidate list \<Rightarrow> ('p, 'c) run \<Rightarrow> bool"
  for pr directory subplugins r0 where
  first: "round_begins pr directory subplugins r0 [] r0"
| another:
    "round_begins pr directory subplugins r0 any_executed r \<Longrightarrow>
     phase_round pr directory subplugins any_executed r = Checks any_executed' r' \<Longrightarrow>
     current_phase (issue r') = directory \<Longrightarrow>
     length any_executed' \<noteq> length any_executed \<Longrightarrow>
     round_begins pr directory subplugins r0 any_executed' r'"

code_pred round_begins .

text \<open>
  \<^verbatim>\<open>sorted(self.plugins)\<close>, and the dictionary \<^verbatim>\<open>dirs_lookup\<close> from a phase
  name to its index (in a dictionary comprehension a later binding of a key replaces an
  earlier one). The order on strings is the lexicographic order on the codes of their
  characters, which is how Python compares strings.
\<close>

definition dirs_of :: "('p, 'c) processor \<Rightarrow> string list" where
  "dirs_of pr = sort (remdups (map fst (plugins pr)))"

definition dirs_lookup :: "string list \<Rightarrow> string \<Rightarrow> nat option" where
  "dirs_lookup dirs = map_of (rev (map (\<lambda>(k, v). (v, k)) (enumerate 0 dirs)))"

text \<open>
  Lines 89 to 119: one phase, from the assignment of \<^verbatim>\<open>_current_phase\<close> to the
  addition of the reward (line 119, \<open>add_auto_reward\<close>), which is reached only when the
  loop of the rounds was left without an exception.
  \<^verbatim>\<open>self.plugins[directory]\<close> raises KeyError on a missing key.
\<close>

fun add_auto_reward :: "('p, 'c) processor \<Rightarrow> ('p, 'c) result \<Rightarrow> ('p, 'c) result" where
  "add_auto_reward pr (Raised e r1) = Raised e r1"
| "add_auto_reward pr (Returned r1) =
     Returned (r1\<lparr>issue := (issue r1)\<lparr>reward := reward (issue r1) + auto_reward pr\<rparr>\<rparr>)"

definition phase_invocation ::
  "('p, 'c) processor \<Rightarrow> string \<Rightarrow> ('p, 'c) run \<Rightarrow> ('p, 'c) result option" where
  "phase_invocation pr directory r =
     (let r0 = \<lparr>issue = (issue r)\<lparr>current_phase := directory\<rparr>,
                log = log r @ [LogPhase directory]\<rparr> in
      case map_of (plugins pr) directory of
        None \<Rightarrow> Some (Raised KeyError r0)
      | Some subplugins \<Rightarrow>
          map_option (add_auto_reward pr) (phase_rounds pr directory subplugins [] r0))"

text \<open>Lines 120 to 123: the index of the next phase.\<close>

definition next_dirno :: "string list \<Rightarrow> nat \<Rightarrow> string \<Rightarrow> 'p issue \<Rightarrow> nat" where
  "next_dirno dirs current_dirno directory i =
     (if current_phase i = directory then current_dirno + 1
      else (case dirs_lookup dirs (current_phase i) of
              Some k \<Rightarrow> k
            | None \<Rightarrow> current_dirno + 1))"

text \<open>
  The loop \<^verbatim>\<open>while current_dirno < len(dirs)\<close>. Plugins can send it back to an
  earlier phase for ever, so it is a partial function too.
\<close>

partial_function (option) phases_loop ::
  "('p, 'c) processor \<Rightarrow> string list \<Rightarrow> nat \<Rightarrow> ('p, 'c) run \<Rightarrow> ('p, 'c) result option" where
  "phases_loop pr dirs current_dirno r =
     (if current_dirno < length dirs then
        Option.bind (phase_invocation pr (dirs ! current_dirno) r)
          (\<lambda>res. case res of
             Raised e r1 \<Rightarrow> Some (Raised e r1)
           | Returned r1 \<Rightarrow>
               phases_loop pr dirs
                 (next_dirno dirs current_dirno (dirs ! current_dirno) (issue r1)) r1)
      else Some (Returned r))"

declare phases_loop.simps [code]

definition apply_all_plugins_on_value ::
  "('p, 'c) processor \<Rightarrow> ('p, 'c) run \<Rightarrow> ('p, 'c) result option" where
  "apply_all_plugins_on_value pr r =
     phases_loop pr (dirs_of pr) 0 (r\<lparr>issue := (issue r)\<lparr>reward := 0\<rparr>\<rparr>)"

definition process_issue ::
  "('p, 'c) processor \<Rightarrow> ('p, 'c) run \<Rightarrow> ('p, 'c) result option" where
  "process_issue pr r =
     (case apply_all_plugins_on_value pr r of
        None \<Rightarrow> None
      | Some (Raised e r1) \<Rightarrow> Some (Raised e r1)
      | Some (Returned r1) \<Rightarrow>
          (case ds pr of
             None \<Rightarrow> Some (Returned r1)
           | Some d \<Rightarrow>
               (case finish_episode d (issue r1) of
                  (Returns, i) \<Rightarrow>
                    Some (Returned \<lparr>issue = i, log = log r1 @ [CallFinishEpisode]\<rparr>)
                | (Raises, i) \<Rightarrow>
                    Some (Raised ArbiterError
                      \<lparr>issue = i, log = log r1 @ [CallFinishEpisode]\<rparr>))))"

subsection \<open>Reading the log\<close>

text \<open>
  The executions of a log: the pairs \<^verbatim>\<open>plugin.process\<close> was called with, in
  order.
\<close>

fun acts :: "'c event list \<Rightarrow> 'c candidate list" where
  "acts [] = []"
| "acts (CallProcess plugin context # es) = (plugin, context) # acts es"
| "acts (e # es) = acts es"

text \<open>
  What the executions of a list of pairs, one after the other, make of an issue: every
  \<^verbatim>\<open>process\<close> works on the issue as the one before it left it.
\<close>

fun effects :: "('p, 'c) processor \<Rightarrow> 'c candidate list \<Rightarrow> 'p issue \<Rightarrow> 'p issue" where
  "effects pr [] i = i"
| "effects pr (c # cs) i = effects pr cs (snd (process (plugin_at pr (fst c)) i (snd c)))"

text \<open>The label lists the decision service was asked to decide on, in order.\<close>

fun decisions :: "'c event list \<Rightarrow> string list list" where
  "decisions [] = []"
| "decisions (CallDecide possible_kis # es) = possible_kis # decisions es"
| "decisions (e # es) = decisions es"

text \<open>The rounds begun (candidate sets built) and the phases begun.\<close>

definition rounds_begun :: "'c event list \<Rightarrow> nat" where
  "rounds_begun es = length (filter (\<lambda>e. e = LogTestPlugins) es)"

fun phases_begun :: "'c event list \<Rightarrow> string list" where
  "phases_begun [] = []"
| "phases_begun (LogPhase directory # es) = directory # phases_begun es"
| "phases_begun (e # es) = phases_begun es"

fun is_execution :: "'c event \<Rightarrow> bool" where
  "is_execution (LogExecuting plugin context) = True"
| "is_execution (CallProcess plugin context) = True"
| "is_execution (WarnExecute plugin context) = True"
| "is_execution e = False"

fun run_of :: "('p, 'c) result \<Rightarrow> ('p, 'c) run" where
  "run_of (Raised e r) = r"
| "run_of (Returned r) = r"

fun raised :: "('p, 'c) result \<Rightarrow> bool" where
  "raised (Raised e r) = True"
| "raised (Returned r) = False"

text \<open>The run an attempt ends with, whether it raised or not.\<close>

fun run_after :: "error \<times> ('p, 'c) run + 'a \<times> ('p, 'c) run \<Rightarrow> ('p, 'c) run" where
  "run_after (Inl (e, r)) = r"
| "run_after (Inr (a, r)) = r"

text \<open>The contexts a call of \<^verbatim>\<open>test\<close> contributes to the candidate sequence.\<close>

fun offered :: "'c test_result \<Rightarrow> 'c list" where
  "offered TestRaises = []"
| "offered Falsy = []"
| "offered (ContextList contexts) = contexts"
| "offered (Context context) = [context]"


subsection \<open>A small installation\<close>

text \<open>
  Plugin classes over an issue whose payload is one flag, with strings as contexts.
  \<open>Detect\<close> offers two contexts while the flag is down, \<open>Mark\<close> raises the flag,
  \<open>Jump\<close> sends the issue back to the first phase once, \<open>Broken\<close> fails in
  \<^verbatim>\<open>test\<close>, \<open>Echo\<close> offers the name of the current phase as its context,
  \<open>Twice\<close> offers the same context two times, \<open>Crash\<close> fails in
  \<^verbatim>\<open>process\<close>. \<open>Bare\<close> fails in \<^verbatim>\<open>test\<close> too, and its constructor does
  not call the one of \<^verbatim>\<open>Plugin\<close>, so its objects have no description. The objects
  1 and 5 are instances of \<open>Mark\<close>, the objects 4, 6 and those from 10 on are instances
  of \<open>Crash\<close>; every phase has objects of its own.
\<close>

definition demo_plugin :: "plugin_ref \<Rightarrow> (bool, string) plugin" where
  "demo_plugin n =
     (if n = 0 then
        \<lparr>kind = ''Detect'', description = Some ''UNKNOWN'',
         test = (\<lambda>i. (if payload i then Falsy else ContextList [''A1'', ''A2''], i)),
         process = (\<lambda>i c. (Returns, i))\<rparr>
      else if n = 1 \<or> n = 5 then
        \<lparr>kind = ''Mark'', description = Some ''UNKNOWN'',
         test = (\<lambda>i. (Context ''B'', i)),
         process = (\<lambda>i c. (Returns, i\<lparr>payload := True\<rparr>))\<rparr>
      else if n = 2 then
        \<lparr>kind = ''Jump'', description = Some ''UNKNOWN'',
         test = (\<lambda>i. (if payload i then Falsy else Context ''J'', i)),
         process = (\<lambda>i c. (Returns, i\<lparr>current_phase := ''10-detect'', payload := True\<rparr>))\<rparr>
      else if n = 3 then
        \<lparr>kind = ''Broken'', description = Some ''UNKNOWN'',
         test = (\<lambda>i. (TestRaises, i)),
         process = (\<lambda>i c. (Raises, i))\<rparr>
      else if n = 7 then
        \<lparr>kind = ''Echo'', description = Some ''UNKNOWN'',
         test = (\<lambda>i. (Context (current_phase i), i)),
         process = (\<lambda>i c. (Returns, i))\<rparr>
      else if n = 8 then
        \<lparr>kind = ''Bare'', description = None,
         test = (\<lambda>i. (TestRaises, i)),
         process = (\<lambda>i c. (Returns, i))\<rparr>
      else if n = 9 then
        \<lparr>kind = ''Twice'', description = Some ''UNKNOWN'',
         test = (\<lambda>i. (ContextList [''D'', ''D''], i)),
         process = (\<lambda>i c. (Returns, i))\<rparr>
      else
        \<lparr>kind = ''Crash'', description = Some ''UNKNOWN'',
         test = (\<lambda>i. (Context ''C'', i)),
         process = (\<lambda>i c. (Raises, i))\<rparr>)"

definition demo_phases :: "(string \<times> plugin_ref list) list" where
  "demo_phases =
     [(''30-cleanup-parallel'', [2, 4]),
      (''10-detect'', [0, 1]),
      (''20-remediate-alternative'', [3, 5, 6])]"

text \<open>No decision service, reward 1 for each phase.\<close>

definition demo :: "(bool, string) processor" where
  "demo = \<lparr>plugins = demo_phases, plugin_at = demo_plugin, str_of = id, ds = None,
            auto_reward = 1\<rparr>"

text \<open>A decision service that takes the last label it is offered.\<close>

definition takes_last :: "bool decision_service" where
  "takes_last = \<lparr>decide = (\<lambda>i possible_kis. (Decision (last possible_kis), i)),
                  finish_episode = (\<lambda>i. (Returns, i))\<rparr>"

text \<open>A decision service that answers with a label nobody offered.\<close>

definition takes_nobody :: "bool decision_service" where
  "takes_nobody = \<lparr>decide = (\<lambda>i possible_kis. (Decision ''Nobody:X'', i)),
                    finish_episode = (\<lambda>i. (Returns, i))\<rparr>"

definition demo_fresh :: "(bool, string) run" where
  "demo_fresh = \<lparr>issue = \<lparr>current_phase = [], reward = 0, payload = False\<rparr>, log = []\<rparr>"

text \<open>An installation with a single phase that has a single plugin.\<close>

definition lone_phases :: "(string \<times> plugin_ref list) list" where
  "lone_phases = [(''20-remediate-alternative'', [1])]"


text \<open>
  An installation whose first phase begins with an object of \<open>Bare\<close>, and the same
  installation with an object of \<open>Broken\<close> in its place.
\<close>

definition bare_phases :: "(string \<times> plugin_ref list) list" where
  "bare_phases = [(''10-detect'', [8, 1]), (''20-remediate-alternative'', [5])]"

definition broken_phases :: "(string \<times> plugin_ref list) list" where
  "broken_phases = [(''10-detect'', [3, 1]), (''20-remediate-alternative'', [5])]"

subsection \<open>Collaborators that leave the reward alone\<close>

text \<open>
  Every collaborator gets the whole issue and could write \<^verbatim>\<open>_reward\<close>. This is the
  condition that none does: no \<^verbatim>\<open>test\<close>, no \<^verbatim>\<open>process\<close> and no
  \<^verbatim>\<open>decide\<close> changes the field.
\<close>

definition leaves_reward :: "('p, 'c) processor \<Rightarrow> bool" where
  "leaves_reward pr \<longleftrightarrow>
     (\<forall>n i. reward (snd (test (plugin_at pr n) i)) = reward i) \<and>
     (\<forall>n i c. reward (snd (process (plugin_at pr n) i c)) = reward i) \<and>
     (\<forall>d i possible_kis. ds pr = Some d \<longrightarrow> reward (snd (decide d i possible_kis)) = reward i)"

subsection \<open>Installations that differ only in their exceptions\<close>

text \<open>
  The warnings are the two log lines written when an exception of a plugin is caught. A
  quiet log is a log without them; a quiet run, result or round has a quiet log and is
  otherwise unchanged.
\<close>

fun is_warning :: "'c event \<Rightarrow> bool" where
  "is_warning (WarnTest plugin) = True"
| "is_warning (WarnExecute plugin context) = True"
| "is_warning e = False"

definition quiet :: "'c event list \<Rightarrow> 'c event list" where
  "quiet es = filter (\<lambda>e. \<not> is_warning e) es"

definition quiet_run :: "('p, 'c) run \<Rightarrow> ('p, 'c) run" where
  "quiet_run r = \<lparr>issue = issue r, log = quiet (log r)\<rparr>"

fun quiet_result :: "('p, 'c) result \<Rightarrow> ('p, 'c) result" where
  "quiet_result (Raised e r) = Raised e (quiet_run r)"
| "quiet_result (Returned r) = Returned (quiet_run r)"

fun quiet_round :: "('p, 'c) round \<Rightarrow> ('p, 'c) round" where
  "quiet_round (Break res) = Break (quiet_result res)"
| "quiet_round (Checks any_executed r) = Checks any_executed (quiet_run r)"

text \<open>
  The calm twin of a plugin changes the issue as the plugin does and offers the same
  contexts, but never raises: where the plugin's \<^verbatim>\<open>test\<close> raises, the twin's
  returns a falsy value, and where its \<^verbatim>\<open>process\<close> raises, the twin's returns.
  The calmed installation has the calm twin in the place of every plugin.
\<close>

definition calm :: "('p, 'c) plugin \<Rightarrow> ('p, 'c) plugin" where
  "calm p =
     \<lparr>kind = kind p,
      description = description p,
      test = (\<lambda>i. case test p i of (TestRaises, i') \<Rightarrow> (Falsy, i') | (res, i') \<Rightarrow> (res, i')),
      process = (\<lambda>i context. (Returns, snd (process p i context)))\<rparr>"

definition calmed :: "('p, 'c) processor \<Rightarrow> ('p, 'c) processor" where
  "calmed pr = pr\<lparr>plugin_at := (\<lambda>n. calm (plugin_at pr n))\<rparr>"

text \<open>
  Two installations have the same effects when they differ at most in which calls of
  \<^verbatim>\<open>test\<close> and \<^verbatim>\<open>process\<close> raise. An installation is described when
  every plugin object of it has a description, as the objects have whose constructor calls
  the one of \<^verbatim>\<open>Plugin\<close>.
\<close>

definition same_effects :: "('p, 'c) processor \<Rightarrow> ('p, 'c) processor \<Rightarrow> bool" where
  "same_effects pr pr' \<longleftrightarrow>
     plugins pr' = plugins pr \<and> ds pr' = ds pr \<and> auto_reward pr' = auto_reward pr \<and>
     str_of pr' = str_of pr \<and>
     (\<forall>n. kind (plugin_at pr' n) = kind (plugin_at pr n)) \<and>
     (\<forall>n. description (plugin_at pr' n) = description (plugin_at pr n)) \<and>
     (\<forall>n i. offered (fst (test (plugin_at pr' n) i)) = offered (fst (test (plugin_at pr n) i))
            \<and> snd (test (plugin_at pr' n) i) = snd (test (plugin_at pr n) i)) \<and>
     (\<forall>n i c. snd (process (plugin_at pr' n) i c) = snd (process (plugin_at pr n) i c))"

definition described :: "('p, 'c) processor \<Rightarrow> bool" where
  "described pr \<longleftrightarrow> (\<forall>n. description (plugin_at pr n) \<noteq> None)"

section \<open>Properties\<close>

subsection \<open>What the methods write to the log\<close>

lemma acts_append [simp]: "acts (xs @ ys) = acts xs @ acts ys"
  by (induction xs rule: acts.induct) auto
lemma decisions_append [simp]: "decisions (xs @ ys) = decisions xs @ decisions ys"
  by (induction xs rule: decisions.induct) auto
lemma phases_begun_append [simp]: "phases_begun (xs @ ys) = phases_begun xs @ phases_begun ys"
  by (induction xs rule: phases_begun.induct) auto
lemma rounds_begun_append [simp]: "rounds_begun (xs @ ys) = rounds_begun xs + rounds_begun ys"
  by (simp add: rounds_begun_def)

lemma effects_append: "effects pr (xs @ ys) i = effects pr ys (effects pr xs i)"
  by (induction xs arbitrary: i) auto

lemma endswith_last:
  assumes "endswith s suffix" and "suffix \<noteq> []"
  shows "last s = last suffix"
proof -
  from assms have d: "drop (length s - length suffix) s = suffix"
    by (simp add: endswith_def)
  with assms(2) have "last (drop (length s - length suffix) s) = last s"
    by (intro last_drop) (metis drop_eq_Nil not_le)
  with d show ?thesis by simp
qed

lemma alternative_not_parallel:
  "endswith directory ''-alternative'' \<Longrightarrow> \<not> endswith directory ''-parallel''"
  using endswith_last [of directory "''-alternative''"] endswith_last [of directory "''-parallel''"]
  by auto

lemma execute_bare:
  "description (plugin_at pr p) = None \<Longrightarrow>
     execute_plugin_with_context pr r p c = Raised AttributeError r"
  by (simp add: execute_plugin_with_context_def)

lemma execute_described:
  assumes "description (plugin_at pr p) \<noteq> None"
  shows "\<exists>r' evs. execute_plugin_with_context pr r p c = Returned r'
     \<and> issue r' = snd (process (plugin_at pr p) (issue r) c)
     \<and> log r' = log r @ evs \<and> acts evs = [(p, c)] \<and> list_all is_execution evs"
  using assms
  by (auto simp: execute_plugin_with_context_def split: prod.splits outcome.splits)

lemma execute_returned:
  assumes "execute_plugin_with_context pr r p c = Returned r'"
  shows "description (plugin_at pr p) \<noteq> None
     \<and> issue r' = snd (process (plugin_at pr p) (issue r) c)
     \<and> (\<exists>evs. log r' = log r @ evs \<and> acts evs = [(p, c)] \<and> list_all is_execution evs)"
  using assms
  by (auto simp: execute_plugin_with_context_def
      split: prod.splits outcome.splits option.splits)

lemma execute_raised:
  assumes "execute_plugin_with_context pr r p c = Raised e r'"
  shows "e = AttributeError \<and> r' = r \<and> description (plugin_at pr p) = None"
  using assms
  by (auto simp: execute_plugin_with_context_def
      split: prod.splits outcome.splits option.splits)

lemma execute_log:
  "\<exists>evs. log (run_of (execute_plugin_with_context pr r p c)) = log r @ evs
     \<and> acts evs = (if raised (execute_plugin_with_context pr r p c) then [] else [(p, c)])
     \<and> list_all is_execution evs"
  by (auto simp: execute_plugin_with_context_def
      split: prod.splits outcome.splits option.splits)

lemma execute_all_described:
  assumes "\<forall>c\<in>set ps. description (plugin_at pr (fst c)) \<noteq> None"
  shows "\<exists>r' evs. execute_all pr ps ae r = Inr (ae @ ps, r')
     \<and> issue r' = effects pr ps (issue r)
     \<and> log r' = log r @ evs \<and> acts evs = ps \<and> list_all is_execution evs"
  using assms
proof (induction ps arbitrary: ae r)
  case Nil
  then show ?case by simp
next
  case (Cons p ps)
  from Cons.prems have "description (plugin_at pr (fst p)) \<noteq> None"
    by simp
  from execute_described [OF this, of r "snd p"]
  obtain r1 e1 where r1: "execute_plugin_with_context pr r (fst p) (snd p) = Returned r1"
    "issue r1 = snd (process (plugin_at pr (fst p)) (issue r) (snd p))"
    "log r1 = log r @ e1" "acts e1 = [p]" "list_all is_execution e1"
    by auto
  from Cons.prems have "\<forall>c\<in>set ps. description (plugin_at pr (fst c)) \<noteq> None"
    by simp
  from Cons.IH [OF this, of "ae @ [p]" r1]
  obtain r2 e2 where r2: "execute_all pr ps (ae @ [p]) r1 = Inr ((ae @ [p]) @ ps, r2)"
    "issue r2 = effects pr ps (issue r1)"
    "log r2 = log r1 @ e2" "acts e2 = ps" "list_all is_execution e2"
    by auto
  show ?case
    by (rule exI [of _ r2], rule exI [of _ "e1 @ e2"]) (simp add: r1 r2)
qed

lemma execute_all_log:
  "\<exists>evs. log (run_after (execute_all pr ps ae r)) = log r @ evs \<and> list_all is_execution evs"
proof (induction ps arbitrary: ae r)
  case Nil
  then show ?case by simp
next
  case (Cons p ps)
  show ?case
  proof (cases "execute_plugin_with_context pr r (fst p) (snd p)")
    case (Raised e r')
    with execute_raised [OF Raised] show ?thesis
      by simp
  next
    case (Returned r1)
    from execute_returned [OF Returned]
    obtain e1 where e1: "log r1 = log r @ e1" "acts e1 = [p]" "list_all is_execution e1"
      by auto
    from Cons.IH [of "ae @ [p]" r1]
    obtain e2 where e2: "log (run_after (execute_all pr ps (ae @ [p]) r1)) = log r1 @ e2"
      "list_all is_execution e2"
      by blast
    show ?thesis
      by (rule exI [of _ "e1 @ e2"]) (simp add: Returned e1 e2)
  qed
qed


lemma execute_all_raised:
  assumes "execute_all pr ps ae r = Inl (e, r')"
  shows "e = AttributeError \<and> (\<exists>c\<in>set ps. description (plugin_at pr (fst c)) = None)"
  using assms
proof (induction ps arbitrary: ae r)
  case Nil
  then show ?case by simp
next
  case (Cons p ps)
  show ?case
  proof (cases "execute_plugin_with_context pr r (fst p) (snd p)")
    case (Raised e1 r1)
    with Cons.prems execute_raised [OF Raised] show ?thesis
      by simp
  next
    case (Returned r1)
    with Cons.prems have "execute_all pr ps (ae @ [p]) r1 = Inl (e, r')"
      by simp
    from Cons.IH [OF this] show ?thesis
      by simp
  qed
qed

lemma is_execution_quiet:
  "list_all is_execution evs \<Longrightarrow>
     decisions evs = [] \<and> rounds_begun evs = 0 \<and> phases_begun evs = []"
proof (induction evs)
  case Nil
  then show ?case by (simp add: rounds_begun_def)
next
  case (Cons e evs)
  then show ?case by (cases e) (simp_all add: rounds_begun_def)
qed

lemma test_plugins_loop_step:
  fixes pr :: "('p, 'c) processor"
  assumes "test (plugin_at pr p) (issue r) = (res, i)"
    and "res = TestRaises \<longrightarrow> description (plugin_at pr p) \<noteq> None"
  shows "test_plugins_loop pr (p # ps) passed r =
           test_plugins_loop pr ps (passed @ map (Pair p) (offered res))
             \<lparr>issue = i, log = log r @ (if res = TestRaises then [CallTest p, WarnTest p]
                                         else [CallTest p])\<rparr>"
  using assms by (cases res) auto

lemma test_plugins_loop_bare:
  fixes pr :: "('p, 'c) processor"
  assumes "test (plugin_at pr p) (issue r) = (TestRaises, i)"
    and "description (plugin_at pr p) = None"
  shows "test_plugins_loop pr (p # ps) passed r =
           Inl (AttributeError, \<lparr>issue = i, log = log r @ [CallTest p]\<rparr>)"
  using assms by simp

lemma test_plugins_loop_log:
  fixes pr :: "('p, 'c) processor"
  shows "\<exists>evs. log (run_after (test_plugins_loop pr ps passed r)) = log r @ evs \<and> acts evs = []
     \<and> decisions evs = [] \<and> rounds_begun evs = 0 \<and> phases_begun evs = []"
proof (induction ps arbitrary: passed r)
  case Nil
  then show ?case by (simp add: rounds_begun_def)
next
  case (Cons p ps)
  obtain res i where t: "test (plugin_at pr p) (issue r) = (res, i)"
    by (cases "test (plugin_at pr p) (issue r)")
  show ?case
  proof (cases "res = TestRaises \<and> description (plugin_at pr p) = None")
    case True
    with t have "test_plugins_loop pr (p # ps) passed r =
        Inl (AttributeError, \<lparr>issue = i, log = log r @ [CallTest p]\<rparr>)"
      by simp
    then show ?thesis
      by (simp add: rounds_begun_def)
  next
    case False
    define e1 :: "'c event list"
      where "e1 = (if res = TestRaises then [CallTest p, WarnTest p] else [CallTest p])"
    have step: "test_plugins_loop pr (p # ps) passed r =
        test_plugins_loop pr ps (passed @ map (Pair p) (offered res))
          \<lparr>issue = i, log = log r @ e1\<rparr>"
      unfolding e1_def using t False by (intro test_plugins_loop_step) auto
    obtain e2 where e2: "log (run_after (test_plugins_loop pr ps
          (passed @ map (Pair p) (offered res)) \<lparr>issue = i, log = log r @ e1\<rparr>)) =
        (log r @ e1) @ e2" "acts e2 = []" "decisions e2 = []"
        "rounds_begun e2 = 0" "phases_begun e2 = []"
      using Cons.IH [of "passed @ map (Pair p) (offered res)" "\<lparr>issue = i, log = log r @ e1\<rparr>"]
      by auto
    have e1: "acts e1 = []" "decisions e1 = []" "rounds_begun e1 = 0"
      "phases_begun e1 = []"
      by (simp_all add: e1_def rounds_begun_def)
    show ?thesis
      unfolding step by (rule exI [of _ "e1 @ e2"]) (simp add: e1 e2)
  qed
qed

lemma test_plugins_on_value_log:
  assumes "test_plugins_on_value pr r subplugins = Inr (tested, r1)"
  shows "\<exists>evs. log r1 = log r @ LogTestPlugins # evs \<and> acts evs = []
     \<and> decisions evs = [] \<and> rounds_begun evs = 0 \<and> phases_begun evs = []"
  using assms test_plugins_loop_log [of pr subplugins "[]" "r\<lparr>log := log r @ [LogTestPlugins]\<rparr>"]
  by (auto simp: test_plugins_on_value_def)

lemma test_plugins_on_value_raised_log:
  assumes "test_plugins_on_value pr r subplugins = Inl (e, r1)"
  shows "\<exists>evs. log r1 = log r @ LogTestPlugins # evs \<and> acts evs = []
     \<and> decisions evs = [] \<and> rounds_begun evs = 0 \<and> phases_begun evs = []"
  using assms test_plugins_loop_log [of pr subplugins "[]" "r\<lparr>log := log r @ [LogTestPlugins]\<rparr>"]
  by (auto simp: test_plugins_on_value_def)

lemma test_plugins_loop_raised:
  assumes "test_plugins_loop pr ps passed r = Inl (e, r1)"
  shows "e = AttributeError \<and> (\<exists>p\<in>set ps. description (plugin_at pr p) = None)"
  using assms
proof (induction ps arbitrary: passed r)
  case Nil
  then show ?case by simp
next
  case (Cons p ps)
  obtain res i where t: "test (plugin_at pr p) (issue r) = (res, i)"
    by (cases "test (plugin_at pr p) (issue r)")
  show ?case
  proof (cases "res = TestRaises \<and> description (plugin_at pr p) = None")
    case True
    with t Cons.prems show ?thesis
      by simp
  next
    case False
    with t have "test_plugins_loop pr (p # ps) passed r =
        test_plugins_loop pr ps (passed @ map (Pair p) (offered res))
          \<lparr>issue = i, log = log r @ (if res = TestRaises then [CallTest p, WarnTest p]
                                      else [CallTest p])\<rparr>"
      by (intro test_plugins_loop_step) auto
    with Cons.prems Cons.IH show ?thesis
      by auto
  qed
qed

lemma test_plugins_loop_described:
  assumes "\<forall>p\<in>set ps. description (plugin_at pr p) \<noteq> None"
  shows "\<exists>tested r1. test_plugins_loop pr ps passed r = Inr (tested, r1)"
proof (cases "test_plugins_loop pr ps passed r")
  case (Inl a)
  then obtain e r1 where "test_plugins_loop pr ps passed r = Inl (e, r1)"
    by (cases a) simp
  from test_plugins_loop_raised [OF this] assms show ?thesis
    by auto
next
  case (Inr b)
  then show ?thesis
    by (cases b) simp
qed

lemma phase_round_test_raised:
  assumes "test_plugins_on_value pr r subplugins = Inl (e, r1)"
  shows "phase_round pr directory subplugins any_executed r = Break (Raised e r1)"
  using assms by (simp add: phase_round_def)

lemma phase_round_parallel:
  assumes "endswith directory ''-parallel''"
    and "test_plugins_on_value pr r subplugins = Inr (tested, r1)"
    and "fold remove1 any_executed tested = possible"
    and "possible \<noteq> []"
  shows "phase_round pr directory subplugins any_executed r =
           (case execute_all pr possible any_executed r1 of
              Inl (e, r2) \<Rightarrow> Break (Raised e r2)
            | Inr (any_executed', r2) \<Rightarrow> Checks any_executed' r2)"
  using assms by (auto simp: phase_round_def Let_def)

lemma phase_round_default:
  assumes "\<not> endswith directory ''-parallel''" and "\<not> endswith directory ''-alternative''"
    and "test_plugins_on_value pr r subplugins = Inr (tested, r1)"
    and "fold remove1 any_executed tested = possible"
    and "possible \<noteq> []"
  shows "phase_round pr directory subplugins any_executed r =
           (case execute_plugin_with_context pr r1 (fst (last possible)) (snd (last possible)) of
              Raised e r2 \<Rightarrow> Break (Raised e r2)
            | Returned r2 \<Rightarrow> Checks (any_executed @ [last possible]) r2)"
  using assms by (auto simp: phase_round_def Let_def)

lemma phase_round_alternative:
  assumes "endswith directory ''-alternative''"
    and "test_plugins_on_value pr r subplugins = Inr (tested, r1)"
    and "fold remove1 any_executed tested = possible"
    and "possible \<noteq> []"
  shows "phase_round pr directory subplugins any_executed r =
           (case decide_on_plugin pr r1 possible of
              (Inl e, r2) \<Rightarrow> Break (Raised e r2)
            | (Inr p, r2) \<Rightarrow> Break (execute_plugin_with_context pr r2 (fst p) (snd p)))"
  using assms alternative_not_parallel [of directory] by (auto simp: phase_round_def Let_def)

lemma phase_round_empty:
  assumes "test_plugins_on_value pr r subplugins = Inr (tested, r1)"
    and "fold remove1 any_executed tested = []"
  shows "phase_round pr directory subplugins any_executed r =
           Break (Returned (r1\<lparr>log := log r1 @ [LogNoPossible directory]\<rparr>))"
  using assms by (auto simp: phase_round_def Let_def)

lemma parallel_round_log:
  assumes "endswith directory ''-parallel''"
    and "test_plugins_on_value pr r subplugins = Inr (tested, r1)"
    and "fold remove1 any_executed tested = possible"
    and "possible \<noteq> []"
    and "\<forall>c\<in>set possible. description (plugin_at pr (fst c)) \<noteq> None"
  shows "\<exists>r2 evs. phase_round pr directory subplugins any_executed r =
             Checks (any_executed @ possible) r2
           \<and> issue r2 = effects pr possible (issue r1)
           \<and> log r2 = log r1 @ evs \<and> acts evs = possible \<and> list_all is_execution evs"
  using phase_round_parallel [OF assms(1,2,3,4)]
    execute_all_described [OF assms(5), of any_executed r1]
  by auto

lemma default_round_log:
  assumes "\<not> endswith directory ''-parallel''" and "\<not> endswith directory ''-alternative''"
    and "test_plugins_on_value pr r subplugins = Inr (tested, r1)"
    and "fold remove1 any_executed tested = possible"
    and "possible \<noteq> []"
    and "description (plugin_at pr (fst (last possible))) \<noteq> None"
  shows "\<exists>r2 evs. phase_round pr directory subplugins any_executed r =
             Checks (any_executed @ [last possible]) r2
           \<and> issue r2 = effects pr [last possible] (issue r1)
           \<and> log r2 = log r1 @ evs \<and> acts evs = [last possible] \<and> list_all is_execution evs"
  using phase_round_default [OF assms(1,2,3,4,5)]
    execute_described [OF assms(6), of r1 "snd (last possible)"]
  by auto

lemma decide_on_plugin_log:
  assumes "possible \<noteq> []"
  shows "\<exists>evs. log (snd (decide_on_plugin pr r possible)) = log r @ evs \<and> acts evs = []
     \<and> rounds_begun evs = 0 \<and> phases_begun evs = []
     \<and> decisions evs = (case ds pr of None \<Rightarrow> [] | Some d \<Rightarrow> [possible_kis_of pr possible])"
  using assms
  by (auto simp: decide_on_plugin_def Let_def rounds_begun_def
      split: list.splits option.splits prod.splits decision.splits)

lemma decide_on_plugin_without_ds:
  assumes "ds pr = None"
  shows "decide_on_plugin pr r (p # rest) = (Inr p, r)"
  using assms by (simp add: decide_on_plugin_def)

lemma phase_rounds_break:
  "phase_round pr directory subplugins any_executed r = Break res \<Longrightarrow>
     phase_rounds pr directory subplugins any_executed r = Some res"
  by (subst phase_rounds.simps) simp

lemma phase_rounds_jump:
  "phase_round pr directory subplugins any_executed r = Checks any_executed' r' \<Longrightarrow>
     current_phase (issue r') \<noteq> directory \<Longrightarrow>
     phase_rounds pr directory subplugins any_executed r = Some (Returned r')"
  by (subst phase_rounds.simps) simp

lemma phase_rounds_again:
  "phase_round pr directory subplugins any_executed r = Checks any_executed' r' \<Longrightarrow>
     current_phase (issue r') = directory \<Longrightarrow> length any_executed' \<noteq> length any_executed \<Longrightarrow>
     phase_rounds pr directory subplugins any_executed r =
       phase_rounds pr directory subplugins any_executed' r'"
  by (subst phase_rounds.simps) simp

lemma alternative_phase:
  assumes "endswith directory ''-alternative''"
    and "test_plugins_on_value pr r subplugins = Inr (tested, r1)"
    and "fold remove1 any_executed tested = possible"
    and "possible \<noteq> []"
  shows "phase_rounds pr directory subplugins any_executed r =
           Some (case decide_on_plugin pr r1 possible of
              (Inl e, r2) \<Rightarrow> Raised e r2
            | (Inr p, r2) \<Rightarrow> execute_plugin_with_context pr r2 (fst p) (snd p))"
  using phase_round_alternative [OF assms]
  by (auto intro!: phase_rounds_break split: prod.splits sum.splits)

lemma empty_phase:
  assumes "test_plugins_on_value pr r subplugins = Inr (tested, r1)"
    and "fold remove1 any_executed tested = []"
  shows "phase_rounds pr directory subplugins any_executed r =
           Some (Returned (r1\<lparr>log := log r1 @ [LogNoPossible directory]\<rparr>))"
  using phase_round_empty [OF assms] by (auto intro!: phase_rounds_break)

subsection \<open>Rounds of a parallel phase\<close>

text \<open>
  Claim C9, as stated, fails when the candidates are counted as pairs: the plugin \<open>Twice\<close>
  offers the pair \<open>(9, D)\<close> two times, and the first round of the phase
  \<^verbatim>\<open>30-cleanup-parallel\<close> calls \<^verbatim>\<open>process\<close> with that pair two times before
  the second round builds its candidates.
\<close>

theorem parallel_round_executes_a_pair_offered_twice_twice:
  "phase_invocation (demo\<lparr>plugins := [(''30-cleanup-parallel'', [9])]\<rparr>)
     ''30-cleanup-parallel'' demo_fresh =
   Some (Returned
     \<lparr>issue = \<lparr>current_phase = ''30-cleanup-parallel'', reward = 1, payload = False\<rparr>,
      log = [LogPhase ''30-cleanup-parallel'', LogTestPlugins, CallTest 9,
             LogExecuting 9 ''D'', CallProcess 9 ''D'',
             LogExecuting 9 ''D'', CallProcess 9 ''D'',
             LogTestPlugins, CallTest 9, LogNoPossible ''30-cleanup-parallel'']\<rparr>)"
  by code_simp

text \<open>
  Claim C9, amended. In a phase whose name ends in \<^verbatim>\<open>-parallel\<close>, a round that
  built a non-empty candidate sequence, of plugins that have a description, executes that
  sequence entry by entry, each entry once and in order, so a pair that stands in the
  sequence two times is executed two times: \<^verbatim>\<open>process\<close> is called with exactly
  the entries of the sequence, the issue after the round is what these calls, one after the
  other, make of the issue the candidates were built on, and all the round writes to the log
  between the building of the candidates and the two checks that end it are these
  executions, so no test is called and no round is begun in between. The executed entries
  are added to \<^verbatim>\<open>any_executed\<close>.
\<close>

theorem parallel_round_executes_every_entry_once:
  assumes "endswith directory ''-parallel''"
    and "test_plugins_on_value pr r subplugins = Inr (tested, r1)"
    and "fold remove1 any_executed tested = possible"
    and "possible \<noteq> []"
    and "\<forall>c\<in>set possible. description (plugin_at pr (fst c)) \<noteq> None"
  shows "\<exists>r2 evs. phase_round pr directory subplugins any_executed r =
             Checks (any_executed @ possible) r2
           \<and> issue r2 = effects pr possible (issue r1)
           \<and> log r2 = log r1 @ evs \<and> acts evs = possible \<and> list_all is_execution evs"
  using parallel_round_log [OF assms] .

theorem parallel_round_executes_every_entry_once_witness:
  "\<exists>r2 evs. phase_round demo ''30-cleanup-parallel'' [2, 4] [] demo_fresh =
       Checks [(2, ''J''), (4, ''C'')] r2
     \<and> issue r2 = \<lparr>current_phase = ''10-detect'', reward = 0, payload = True\<rparr>
     \<and> log r2 = [LogTestPlugins, CallTest 2, CallTest 4] @ evs
     \<and> acts evs = [(2, ''J''), (4, ''C'')] \<and> list_all is_execution evs"
proof -
  have a: "endswith ''30-cleanup-parallel'' ''-parallel''"
    by (simp add: endswith_def)
  have b: "test_plugins_on_value demo demo_fresh [2, 4] =
      Inr ([(2, ''J''), (4, ''C'')],
       \<lparr>issue = \<lparr>current_phase = [], reward = 0, payload = False\<rparr>,
        log = [LogTestPlugins, CallTest 2, CallTest 4]\<rparr>)"
    by code_simp
  have c: "fold remove1 [] [(2::nat, ''J''), (4, ''C'')] = [(2, ''J''), (4, ''C'')]"
    by simp
  have d: "[(2::nat, ''J''), (4, ''C'')] \<noteq> []"
    by simp
  have e: "\<forall>c\<in>set [(2::nat, ''J''), (4, ''C'')]. description (plugin_at demo (fst c)) \<noteq> None"
    by (simp add: demo_def demo_plugin_def)
  have f: "effects demo [(2, ''J''), (4, ''C'')]
      \<lparr>current_phase = [], reward = 0, payload = False\<rparr> =
      \<lparr>current_phase = ''10-detect'', reward = 0, payload = True\<rparr>"
    by code_simp
  from parallel_round_executes_every_entry_once [OF a b c d e] show ?thesis
    by (simp add: f del: effects.simps)
qed

subsection \<open>Where a change of the phase is seen\<close>

text \<open>
  Claim C1, as stated, fails: in the installation \<open>demo\<close> the phase
  \<^verbatim>\<open>30-cleanup-parallel\<close> has the candidates \<open>(2, J)\<close> and \<open>(4, C)\<close>; the
  execution of \<open>(2, J)\<close> writes \<^verbatim>\<open>10-detect\<close> to \<^verbatim>\<open>_current_phase\<close>, and
  \<open>(4, C)\<close> is executed after it in the same round.
\<close>

theorem parallel_round_goes_on_after_a_jump:
  "snd (process (demo_plugin 2)
          \<lparr>current_phase = ''30-cleanup-parallel'', reward = 0, payload = False\<rparr> ''J'') =
     \<lparr>current_phase = ''10-detect'', reward = 0, payload = True\<rparr>
   \<and> phase_invocation demo ''30-cleanup-parallel'' demo_fresh =
     Some (Returned
       \<lparr>issue = \<lparr>current_phase = ''10-detect'', reward = 1, payload = True\<rparr>,
        log = [LogPhase ''30-cleanup-parallel'', LogTestPlugins, CallTest 2, CallTest 4,
               LogExecuting 2 ''J'', CallProcess 2 ''J'',
               LogExecuting 4 ''C'', CallProcess 4 ''C'', WarnExecute 4 ''C'']\<rparr>)"
  by code_simp

text \<open>
  Claim C1, amended. \<^verbatim>\<open>_current_phase\<close> is compared with the phase's name once per
  round, after the executions of the round: after the one execution of a round of a default
  phase, and after the execution of every candidate of a round of a
  \<^verbatim>\<open>-parallel\<close> phase. If the names differ then, the phase returns without another
  round. The plugins executed are plugins that have a description.
\<close>

theorem phase_jump_is_checked_after_the_round:
  assumes "\<not> endswith directory ''-alternative''"
    and "test_plugins_on_value pr r subplugins = Inr (tested, r1)"
    and "fold remove1 any_executed tested = possible"
    and "possible \<noteq> []"
    and "batch = (if endswith directory ''-parallel'' then possible else [last possible])"
    and "\<forall>c\<in>set batch. description (plugin_at pr (fst c)) \<noteq> None"
  shows "\<exists>r2 evs. phase_round pr directory subplugins any_executed r =
             Checks (any_executed @ batch) r2
           \<and> issue r2 = effects pr batch (issue r1)
           \<and> log r2 = log r1 @ evs \<and> acts evs = batch \<and> list_all is_execution evs
           \<and> (current_phase (issue r2) \<noteq> directory \<longrightarrow>
                phase_rounds pr directory subplugins any_executed r = Some (Returned r2))"
proof (cases "endswith directory ''-parallel''")
  case True
  with assms have b: "batch = possible" by simp
  with assms(6) have "\<forall>c\<in>set possible. description (plugin_at pr (fst c)) \<noteq> None"
    by simp
  from parallel_round_log [OF True assms(2,3,4) this]
  obtain r2 evs where "phase_round pr directory subplugins any_executed r =
      Checks (any_executed @ possible) r2" "issue r2 = effects pr possible (issue r1)"
      "log r2 = log r1 @ evs" "acts evs = possible" "list_all is_execution evs"
    by blast
  then show ?thesis
    using b phase_rounds_jump [of pr directory subplugins any_executed r] by blast
next
  case False
  with assms have b: "batch = [last possible]" by simp
  with assms(6) have "description (plugin_at pr (fst (last possible))) \<noteq> None"
    by simp
  from default_round_log [OF False assms(1,2,3,4) this]
  obtain r2 evs where "phase_round pr directory subplugins any_executed r =
      Checks (any_executed @ [last possible]) r2"
      "issue r2 = effects pr [last possible] (issue r1)"
      "log r2 = log r1 @ evs" "acts evs = [last possible]" "list_all is_execution evs"
    by blast
  then show ?thesis
    using b phase_rounds_jump [of pr directory subplugins any_executed r] by blast
qed

theorem phase_jump_is_checked_after_the_round_witness:
  "\<exists>r2 evs. phase_round demo ''30-cleanup-parallel'' [2, 4] [] demo_fresh =
       Checks [(2, ''J''), (4, ''C'')] r2
     \<and> log r2 = [LogTestPlugins, CallTest 2, CallTest 4] @ evs
     \<and> acts evs = [(2, ''J''), (4, ''C'')]
     \<and> phase_rounds demo ''30-cleanup-parallel'' [2, 4] [] demo_fresh = Some (Returned r2)"
proof -
  have a: "\<not> endswith ''30-cleanup-parallel'' ''-alternative''"
    by (simp add: endswith_def)
  have b: "test_plugins_on_value demo demo_fresh [2, 4] =
      Inr ([(2, ''J''), (4, ''C'')],
       \<lparr>issue = \<lparr>current_phase = [], reward = 0, payload = False\<rparr>,
        log = [LogTestPlugins, CallTest 2, CallTest 4]\<rparr>)"
    by code_simp
  have c: "fold remove1 [] [(2::nat, ''J''), (4, ''C'')] = [(2, ''J''), (4, ''C'')]"
    by simp
  have d: "[(2::nat, ''J''), (4, ''C'')] \<noteq> []"
    by simp
  have e: "[(2::nat, ''J''), (4, ''C'')] =
      (if endswith ''30-cleanup-parallel'' ''-parallel'' then [(2, ''J''), (4, ''C'')]
       else [last [(2, ''J''), (4, ''C'')]])"
    by (simp add: endswith_def)
  have g: "\<forall>c\<in>set [(2::nat, ''J''), (4, ''C'')]. description (plugin_at demo (fst c)) \<noteq> None"
    by (simp add: demo_def demo_plugin_def)
  have f: "phase_round demo ''30-cleanup-parallel'' [2, 4] [] demo_fresh =
      Checks [(2, ''J''), (4, ''C'')]
        \<lparr>issue = \<lparr>current_phase = ''10-detect'', reward = 0, payload = True\<rparr>,
         log = [LogTestPlugins, CallTest 2, CallTest 4, LogExecuting 2 ''J'',
                CallProcess 2 ''J'', LogExecuting 4 ''C'', CallProcess 4 ''C'',
                WarnExecute 4 ''C'']\<rparr>"
    by code_simp
  from phase_jump_is_checked_after_the_round [OF a b c d e g] f show ?thesis
    by auto
qed

subsection \<open>Phases with one choice\<close>

lemma decide_on_plugin_resolved:
  assumes "ds pr = Some d"
    and "decide d (issue r) (possible_kis_of pr possible) = (Decision label, i)"
    and "split CHR '':'' label = [best_plugin, best_context]"
    and "filter (\<lambda>(x, y). kind (plugin_at pr x) = best_plugin \<and> str_of pr y = best_context)
           possible = p # rest"
  shows "decide_on_plugin pr r possible =
           (Inr p, \<lparr>issue = i, log = log r @ [CallDecide (possible_kis_of pr possible)]\<rparr>)"
proof -
  from assms(4) have "possible \<noteq> []"
    by auto
  then obtain c cs where "possible = c # cs"
    by (cases possible) auto
  with assms show ?thesis
    by (simp add: decide_on_plugin_def Let_def)
qed

lemma alternative_phase_executes:
  assumes "endswith directory ''-alternative''"
    and "test_plugins_on_value pr r subplugins = Inr (tested, r1)"
    and "fold remove1 any_executed tested = possible"
    and "possible \<noteq> []"
    and "decide_on_plugin pr r1 possible = (Inr p, r2)"
  shows "phase_rounds pr directory subplugins any_executed r =
           Some (execute_plugin_with_context pr r2 (fst p) (snd p))
         \<and> acts (log r2) = acts (log r)
         \<and> (description (plugin_at pr (fst p)) \<noteq> None \<longrightarrow>
              (\<exists>r3. execute_plugin_with_context pr r2 (fst p) (snd p) = Returned r3
                 \<and> issue r3 = snd (process (plugin_at pr (fst p)) (issue r2) (snd p))
                 \<and> acts (log r3) = acts (log r) @ [p]
                 \<and> decisions (log r3) = decisions (log r2)))"
proof -
  obtain evs where t: "log r1 = log r @ LogTestPlugins # evs" "acts evs = []"
    using test_plugins_on_value_log [OF assms(2)] by blast
  obtain evs2 where d2: "log r2 = log r1 @ evs2" "acts evs2 = []"
    using decide_on_plugin_log [OF assms(4), of pr r1] assms(5) by auto
  have a: "acts (log r2) = acts (log r)"
    by (simp add: t d2)
  have b: "\<exists>r3. execute_plugin_with_context pr r2 (fst p) (snd p) = Returned r3
                 \<and> issue r3 = snd (process (plugin_at pr (fst p)) (issue r2) (snd p))
                 \<and> acts (log r3) = acts (log r) @ [p]
                 \<and> decisions (log r3) = decisions (log r2)"
    if "description (plugin_at pr (fst p)) \<noteq> None"
  proof -
    from execute_described [OF that, of r2 "snd p"]
    obtain r3 evs3 where r3: "execute_plugin_with_context pr r2 (fst p) (snd p) = Returned r3"
      "issue r3 = snd (process (plugin_at pr (fst p)) (issue r2) (snd p))"
      "log r3 = log r2 @ evs3" "acts evs3 = [p]" "list_all is_execution evs3"
      by auto
    with a is_execution_quiet [of evs3] show ?thesis
      by simp
  qed
  from alternative_phase [OF assms(1,2,3,4)] assms(5) a b show ?thesis
    by simp
qed

text \<open>
  Claim C2, as stated, fails: with a decision service configured, a phase
  \<^verbatim>\<open>-alternative\<close> whose candidate sequence has exactly one entry still asks the
  decision service.
\<close>

theorem decision_service_is_asked_about_a_single_candidate:
  "apply_all_plugins_on_value (demo\<lparr>plugins := lone_phases, ds := Some takes_last\<rparr>) demo_fresh =
     Some (Returned
       \<lparr>issue = \<lparr>current_phase = ''20-remediate-alternative'', reward = 1, payload = True\<rparr>,
        log = [LogPhase ''20-remediate-alternative'', LogTestPlugins, CallTest 1,
               CallDecide [''Mark:B''], LogExecuting 1 ''B'', CallProcess 1 ''B'']\<rparr>)"
  by code_simp

text \<open>
  Claim C2, amended. In a phase \<^verbatim>\<open>-alternative\<close> with a non-empty candidate
  sequence the decision service is asked exactly when one is configured, once and with the
  labels of all candidates, whatever their number, to select the one to execute: when its
  answer splits at the colon into a kind and a context, the candidate executed is the first
  one of the sequence with that kind and that context as a string. Only without a decision
  service is the first candidate executed without asking. The execution of a candidate whose
  plugin has a description is one call of \<^verbatim>\<open>process\<close>, on the issue as the
  decision service left it.
\<close>

theorem decision_service_is_asked_whenever_configured:
  assumes "endswith directory ''-alternative''"
    and "test_plugins_on_value pr r subplugins = Inr (tested, r1)"
    and "fold remove1 any_executed tested = possible"
    and "possible \<noteq> []"
  shows "\<exists>res. phase_rounds pr directory subplugins any_executed r = Some res
           \<and> decisions (log (run_of res)) = decisions (log r) @
               (case ds pr of None \<Rightarrow> [] | Some d \<Rightarrow> [possible_kis_of pr possible])
           \<and> (ds pr = None \<longrightarrow>
                res = execute_plugin_with_context pr r1 (fst (hd possible)) (snd (hd possible))
                \<and> (description (plugin_at pr (fst (hd possible))) \<noteq> None \<longrightarrow>
                     \<not> raised res
                     \<and> issue (run_of res) =
                         snd (process (plugin_at pr (fst (hd possible))) (issue r1)
                                (snd (hd possible)))
                     \<and> acts (log (run_of res)) = acts (log r) @ [hd possible]))
           \<and> (\<forall>d label i best_plugin best_context p rest.
                ds pr = Some d
                \<and> decide d (issue r1) (possible_kis_of pr possible) = (Decision label, i)
                \<and> split CHR '':'' label = [best_plugin, best_context]
                \<and> filter (\<lambda>(x, y). kind (plugin_at pr x) = best_plugin
                                  \<and> str_of pr y = best_context) possible = p # rest
                \<longrightarrow>
                res = execute_plugin_with_context pr
                        \<lparr>issue = i, log = log r1 @ [CallDecide (possible_kis_of pr possible)]\<rparr>
                        (fst p) (snd p)
                \<and> (description (plugin_at pr (fst p)) \<noteq> None \<longrightarrow>
                     \<not> raised res
                     \<and> issue (run_of res) = snd (process (plugin_at pr (fst p)) i (snd p))
                     \<and> acts (log (run_of res)) = acts (log r) @ [p]))"
proof -
  obtain evs where t: "log r1 = log r @ LogTestPlugins # evs" "acts evs = []"
    "decisions evs = []"
    using test_plugins_on_value_log [OF assms(2)] by blast
  obtain x r2 where d: "decide_on_plugin pr r1 possible = (x, r2)"
    by (cases "decide_on_plugin pr r1 possible")
  obtain evs2 where d2: "log r2 = log r1 @ evs2" "acts evs2 = []"
    "decisions evs2 = (case ds pr of None \<Rightarrow> [] | Some d \<Rightarrow> [possible_kis_of pr possible])"
    using decide_on_plugin_log [OF assms(4), of pr r1] d by auto
  define res where "res = (case x of Inl e \<Rightarrow> Raised e r2
    | Inr p \<Rightarrow> execute_plugin_with_context pr r2 (fst p) (snd p))"
  have res: "phase_rounds pr directory subplugins any_executed r = Some res"
    using alternative_phase [OF assms] d by (simp add: res_def)
  have dec: "decisions (log (run_of res)) = decisions (log r) @
      (case ds pr of None \<Rightarrow> [] | Some d \<Rightarrow> [possible_kis_of pr possible])"
  proof (cases x)
    case (Inl e)
    then show ?thesis
      by (simp add: res_def t d2 rounds_begun_def)
  next
    case (Inr p)
    obtain evs3 where "log (run_of (execute_plugin_with_context pr r2 (fst p) (snd p))) =
        log r2 @ evs3" "list_all is_execution evs3"
      using execute_log [of pr r2 "fst p" "snd p"] by blast
    then show ?thesis
      using is_execution_quiet [of evs3] Inr by (simp add: res_def t d2 rounds_begun_def)
  qed
  have chosen: "res = execute_plugin_with_context pr r2 (fst p) (snd p)
      \<and> (description (plugin_at pr (fst p)) \<noteq> None \<longrightarrow>
           \<not> raised res
           \<and> issue (run_of res) = snd (process (plugin_at pr (fst p)) (issue r2) (snd p))
           \<and> acts (log (run_of res)) = acts (log r) @ [p])"
    if "decide_on_plugin pr r1 possible = (Inr p, r2)" for p r2
    using alternative_phase_executes [OF assms that] res by auto
  have none: "ds pr = None \<longrightarrow>
      res = execute_plugin_with_context pr r1 (fst (hd possible)) (snd (hd possible))
      \<and> (description (plugin_at pr (fst (hd possible))) \<noteq> None \<longrightarrow>
           \<not> raised res
           \<and> issue (run_of res) =
               snd (process (plugin_at pr (fst (hd possible))) (issue r1) (snd (hd possible)))
           \<and> acts (log (run_of res)) = acts (log r) @ [hd possible])"
  proof
    assume "ds pr = None"
    from decide_on_plugin_without_ds [OF this, of r1 "hd possible" "tl possible"] assms(4)
    have "decide_on_plugin pr r1 possible = (Inr (hd possible), r1)"
      by simp
    from chosen [OF this] show "res =
        execute_plugin_with_context pr r1 (fst (hd possible)) (snd (hd possible))
      \<and> (description (plugin_at pr (fst (hd possible))) \<noteq> None \<longrightarrow>
           \<not> raised res
           \<and> issue (run_of res) =
               snd (process (plugin_at pr (fst (hd possible))) (issue r1) (snd (hd possible)))
           \<and> acts (log (run_of res)) = acts (log r) @ [hd possible])" .
  qed
  have some: "res = execute_plugin_with_context pr
                        \<lparr>issue = i, log = log r1 @ [CallDecide (possible_kis_of pr possible)]\<rparr>
                        (fst p) (snd p)
                \<and> (description (plugin_at pr (fst p)) \<noteq> None \<longrightarrow>
                     \<not> raised res
                     \<and> issue (run_of res) = snd (process (plugin_at pr (fst p)) i (snd p))
                     \<and> acts (log (run_of res)) = acts (log r) @ [p])"
    if "ds pr = Some d"
      and "decide d (issue r1) (possible_kis_of pr possible) = (Decision label, i)"
      and "split CHR '':'' label = [best_plugin, best_context]"
      and "filter (\<lambda>(x, y). kind (plugin_at pr x) = best_plugin
                                  \<and> str_of pr y = best_context) possible = p # rest"
    for d label i best_plugin best_context p rest
    using chosen [OF decide_on_plugin_resolved [OF that]] unfolding run.select_convs .
  have all: "\<forall>d label i best_plugin best_context p rest.
                ds pr = Some d
                \<and> decide d (issue r1) (possible_kis_of pr possible) = (Decision label, i)
                \<and> split CHR '':'' label = [best_plugin, best_context]
                \<and> filter (\<lambda>(x, y). kind (plugin_at pr x) = best_plugin
                                  \<and> str_of pr y = best_context) possible = p # rest
                \<longrightarrow>
                res = execute_plugin_with_context pr
                        \<lparr>issue = i, log = log r1 @ [CallDecide (possible_kis_of pr possible)]\<rparr>
                        (fst p) (snd p)
                \<and> (description (plugin_at pr (fst p)) \<noteq> None \<longrightarrow>
                     \<not> raised res
                     \<and> issue (run_of res) = snd (process (plugin_at pr (fst p)) i (snd p))
                     \<and> acts (log (run_of res)) = acts (log r) @ [p])"
  proof (intro allI impI, elim conjE)
    fix d label i best_plugin best_context p rest
    assume "ds pr = Some d"
      and "decide d (issue r1) (possible_kis_of pr possible) = (Decision label, i)"
      and "split CHR '':'' label = [best_plugin, best_context]"
      and "filter (\<lambda>(x, y). kind (plugin_at pr x) = best_plugin
                                  \<and> str_of pr y = best_context) possible = p # rest"
    then show "res = execute_plugin_with_context pr
                        \<lparr>issue = i, log = log r1 @ [CallDecide (possible_kis_of pr possible)]\<rparr>
                        (fst p) (snd p)
                \<and> (description (plugin_at pr (fst p)) \<noteq> None \<longrightarrow>
                     \<not> raised res
                     \<and> issue (run_of res) = snd (process (plugin_at pr (fst p)) i (snd p))
                     \<and> acts (log (run_of res)) = acts (log r) @ [p])"
      by (rule some)
  qed
  show ?thesis
    by (rule exI [of _ res]) (intro conjI res dec none all)
qed

theorem decision_service_is_asked_whenever_configured_witness:
  "\<exists>res. phase_rounds (demo\<lparr>ds := Some takes_last\<rparr>) ''20-remediate-alternative'' [3, 5, 6] []
       demo_fresh = Some res
     \<and> decisions (log (run_of res)) = [[''Mark:B'', ''Crash:C'']]
     \<and> \<not> raised res
     \<and> issue (run_of res) = \<lparr>current_phase = [], reward = 0, payload = False\<rparr>
     \<and> acts (log (run_of res)) = [(6, ''C'')]"
proof -
  let ?pr = "demo\<lparr>ds := Some takes_last\<rparr>"
  let ?r1 = "\<lparr>issue = \<lparr>current_phase = [], reward = 0, payload = False\<rparr>,
        log = [LogTestPlugins, CallTest 3, WarnTest 3, CallTest 5, CallTest 6]\<rparr>
        :: (bool, string) run"
  let ?possible = "[(5::nat, ''B''), (6, ''C'')]"
  have a: "endswith ''20-remediate-alternative'' ''-alternative''"
    by (simp add: endswith_def)
  have b: "test_plugins_on_value ?pr demo_fresh [3, 5, 6] =
      Inr (?possible, ?r1)"
    by code_simp
  have c: "fold remove1 [] ?possible = ?possible"
    by simp
  have d: "?possible \<noteq> []"
    by simp
  have k: "possible_kis_of ?pr ?possible = [''Mark:B'', ''Crash:C'']"
    by code_simp
  have e: "ds ?pr = Some takes_last"
    by simp
  have f: "decide takes_last (issue ?r1) [''Mark:B'', ''Crash:C''] =
      (Decision ''Crash:C'', \<lparr>current_phase = [], reward = 0, payload = False\<rparr>)"
    by (simp add: takes_last_def)
  have g: "split CHR '':'' ''Crash:C'' = [''Crash'', ''C'']"
    by code_simp
  have h: "filter (\<lambda>(x, y). kind (plugin_at ?pr x) = ''Crash'' \<and> str_of ?pr y = ''C'')
      ?possible = (6, ''C'') # []"
    by code_simp
  have j: "description (plugin_at ?pr (fst (6::nat, ''C''))) \<noteq> None"
    by (simp add: demo_def demo_plugin_def)
  have m: "snd (process (plugin_at ?pr (fst (6::nat, ''C'')))
      \<lparr>current_phase = [], reward = 0, payload = False\<rparr> (snd (6::nat, ''C''))) =
      \<lparr>current_phase = [], reward = 0, payload = False\<rparr>"
    by (simp add: demo_def demo_plugin_def)
  from decision_service_is_asked_whenever_configured [OF a b c d]
  obtain res where res: "phase_rounds ?pr ''20-remediate-alternative'' [3, 5, 6] [] demo_fresh =
      Some res
    \<and> decisions (log (run_of res)) = decisions (log demo_fresh) @
       (case ds ?pr of None \<Rightarrow> [] | Some d \<Rightarrow> [possible_kis_of ?pr ?possible])
    \<and> (ds ?pr = None \<longrightarrow>
         res = execute_plugin_with_context ?pr ?r1 (fst (hd ?possible)) (snd (hd ?possible))
         \<and> (description (plugin_at ?pr (fst (hd ?possible))) \<noteq> None \<longrightarrow>
              \<not> raised res
              \<and> issue (run_of res) =
                  snd (process (plugin_at ?pr (fst (hd ?possible))) (issue ?r1)
                         (snd (hd ?possible)))
              \<and> acts (log (run_of res)) = acts (log demo_fresh) @ [hd ?possible]))
    \<and> (\<forall>d label i best_plugin best_context p rest.
        ds ?pr = Some d
        \<and> decide d (issue ?r1) (possible_kis_of ?pr ?possible) = (Decision label, i)
        \<and> split CHR '':'' label = [best_plugin, best_context]
        \<and> filter (\<lambda>(x, y). kind (plugin_at ?pr x) = best_plugin
                          \<and> str_of ?pr y = best_context) ?possible = p # rest
        \<longrightarrow>
        res = execute_plugin_with_context ?pr
                \<lparr>issue = i, log = log ?r1 @ [CallDecide (possible_kis_of ?pr ?possible)]\<rparr>
                (fst p) (snd p)
        \<and> (description (plugin_at ?pr (fst p)) \<noteq> None \<longrightarrow>
             \<not> raised res
             \<and> issue (run_of res) = snd (process (plugin_at ?pr (fst p)) i (snd p))
             \<and> acts (log (run_of res)) = acts (log demo_fresh) @ [p]))" ..
  note res1 = res [THEN conjunct1]
  note res2 = res [THEN conjunct2, THEN conjunct1]
  note res3 = res [THEN conjunct2, THEN conjunct2, THEN conjunct2]
  from res3 [rule_format, of takes_last "''Crash:C''"
      "\<lparr>current_phase = [], reward = 0, payload = False\<rparr>" "''Crash''" "''C''" "(6, ''C'')" "[]"]
    e f g h j
  have "\<not> raised res
      \<and> issue (run_of res) = snd (process (plugin_at ?pr (fst (6::nat, ''C'')))
          \<lparr>current_phase = [], reward = 0, payload = False\<rparr> (snd (6::nat, ''C'')))
      \<and> acts (log (run_of res)) = acts (log demo_fresh) @ [(6, ''C'')]"
    unfolding k by blast
  with res1 res2 m show ?thesis
    unfolding k by (simp add: demo_fresh_def)
qed

text \<open>
  Claim C3, as stated, fails: when the decision service answers with a label that no
  candidate has, the phase \<^verbatim>\<open>-alternative\<close> raises and no plugin has been
  executed, although the candidate sequence was not empty.
\<close>

theorem alternative_phase_without_act_despite_candidates:
  "phase_invocation (demo\<lparr>ds := Some takes_nobody\<rparr>) ''20-remediate-alternative'' demo_fresh =
     Some (Raised IndexError
       \<lparr>issue = \<lparr>current_phase = ''20-remediate-alternative'', reward = 0, payload = False\<rparr>,
        log = [LogPhase ''20-remediate-alternative'', LogTestPlugins, CallTest 3, WarnTest 3,
               CallTest 5, CallTest 6, CallDecide [''Mark:B'', ''Crash:C'']]\<rparr>)"
  by code_simp

text \<open>
  Claim C3, amended. Every invocation of a phase whose name ends in
  \<^verbatim>\<open>-alternative\<close> ends after one round, with no execution when the candidate
  sequence is empty or when the invocation raises, as it does when choosing the candidate
  raises, and with exactly one execution otherwise, whatever the number of candidates.
\<close>

theorem alternative_phase_acts_at_most_once:
  assumes "endswith directory ''-alternative''"
    and "test_plugins_on_value pr r subplugins = Inr (tested, r1)"
    and "fold remove1 any_executed tested = possible"
  shows "\<exists>res. phase_rounds pr directory subplugins any_executed r = Some res
           \<and> length (acts (log (run_of res))) =
               length (acts (log r)) + (if possible = [] \<or> raised res then 0 else 1)"
proof (cases "possible = []")
  case True
  obtain evs where "log r1 = log r @ LogTestPlugins # evs" "acts evs = []"
    using test_plugins_on_value_log [OF assms(2)] by blast
  then show ?thesis
    using True empty_phase [of pr r subplugins tested r1 any_executed directory] assms
    by simp
next
  case False
  obtain evs where t: "log r1 = log r @ LogTestPlugins # evs" "acts evs = []"
    using test_plugins_on_value_log [OF assms(2)] by blast
  obtain x r2 where d: "decide_on_plugin pr r1 possible = (x, r2)"
    by (cases "decide_on_plugin pr r1 possible")
  obtain evs2 where d2: "log r2 = log r1 @ evs2" "acts evs2 = []"
    using decide_on_plugin_log [OF False, of pr r1] d by auto
  show ?thesis
  proof (cases x)
    case (Inl e)
    then show ?thesis
      using alternative_phase [OF assms False] d t d2 False by simp
  next
    case (Inr p)
    obtain evs3 where
      "log (run_of (execute_plugin_with_context pr r2 (fst p) (snd p))) = log r2 @ evs3"
      "acts evs3 = (if raised (execute_plugin_with_context pr r2 (fst p) (snd p)) then []
                    else [(fst p, snd p)])"
      using execute_log [of pr r2 "fst p" "snd p"] by blast
    then show ?thesis
      using alternative_phase [OF assms False] d t d2 False Inr by simp
  qed
qed

theorem alternative_phase_acts_at_most_once_witness:
  "\<exists>res. phase_rounds demo ''20-remediate-alternative'' [3, 5, 6] [] demo_fresh = Some res
     \<and> length (acts (log (run_of res))) = 1"
proof -
  have a: "endswith ''20-remediate-alternative'' ''-alternative''"
    by (simp add: endswith_def)
  have b: "test_plugins_on_value demo demo_fresh [3, 5, 6] =
      Inr ([(5, ''B''), (6, ''C'')],
       \<lparr>issue = \<lparr>current_phase = [], reward = 0, payload = False\<rparr>,
        log = [LogTestPlugins, CallTest 3, WarnTest 3, CallTest 5, CallTest 6]\<rparr>)"
    by code_simp
  have c: "fold remove1 [] [(5::nat, ''B''), (6, ''C'')] = [(5, ''B''), (6, ''C'')]"
    by simp
  have f: "phase_rounds demo ''20-remediate-alternative'' [3, 5, 6] [] demo_fresh =
      Some (Returned
        \<lparr>issue = \<lparr>current_phase = [], reward = 0, payload = True\<rparr>,
         log = [LogTestPlugins, CallTest 3, WarnTest 3, CallTest 5, CallTest 6,
                LogExecuting 5 ''B'', CallProcess 5 ''B'']\<rparr>)"
    by code_simp
  from alternative_phase_acts_at_most_once [OF a b c] f show ?thesis
    by (simp add: demo_fresh_def)
qed




subsection \<open>A decision that names no candidate\<close>

lemma split_not_Nil: "split sep s \<noteq> []"
  by (induction s) (auto split: list.splits)

lemma split_one: "split sep s = [b] \<Longrightarrow> s = b"
proof (induction s arbitrary: b)
  case Nil
  then show ?case by simp
next
  case (Cons c cs)
  then show ?case using split_not_Nil [of sep cs] by (auto split: if_splits list.splits)
qed

lemma split_two: "split sep s = [a, b] \<Longrightarrow> s = a @ sep # b"
proof (induction s arbitrary: a)
  case Nil
  then show ?case by simp
next
  case (Cons c cs)
  then show ?case using split_not_Nil [of sep cs]
    by (auto split: if_splits list.splits dest: split_one)
qed

lemma decide_on_plugin_unresolved:
  assumes "ds pr = Some d"
    and "decide d (issue r) (possible_kis_of pr possible) = (Decision label, i)"
    and "label \<notin> set (possible_kis_of pr possible)"
    and "possible \<noteq> []"
  shows "\<exists>e. decide_on_plugin pr r possible =
           (Inl e, \<lparr>issue = i, log = log r @ [CallDecide (possible_kis_of pr possible)]\<rparr>)
         \<and> (e = ValueError \<or> e = IndexError)"
proof (cases "\<exists>a b. split CHR '':'' label = [a, b]")
  case False
  then have "case split CHR '':'' label of [a, b] \<Rightarrow> False | _ \<Rightarrow> True"
    by (auto split: list.splits)
  then show ?thesis
    using assms by (auto simp: decide_on_plugin_def Let_def split: list.splits)
next
  case True
  then obtain a b where ab: "split CHR '':'' label = [a, b]" by blast
  then have l: "label = a @ '':'' @ b"
    using split_two by fastforce
  have "filter (\<lambda>(x, y). kind (plugin_at pr x) = a \<and> str_of pr y = b) possible = []"
  proof (rule ccontr)
    assume "filter (\<lambda>(x, y). kind (plugin_at pr x) = a \<and> str_of pr y = b) possible \<noteq> []"
    then obtain x y where "(x, y) \<in> set possible" "kind (plugin_at pr x) = a" "str_of pr y = b"
      by (auto simp: filter_empty_conv)
    then have "label \<in> set (possible_kis_of pr possible)"
      using l by (force simp: possible_kis_of_def)
    with assms(3) show False by simp
  qed
  then show ?thesis
    using assms ab by (auto simp: decide_on_plugin_def Let_def split: list.splits)
qed

text \<open>
  Claim C7. When the decision service is asked in a phase \<^verbatim>\<open>-alternative\<close> and
  answers with a label that is not the label (kind, colon, context as a string) of any
  candidate of the round, the loop over the phases ends there with an exception (ValueError
  from the unpacking of the split label, or IndexError from the empty list of matches), no
  plugin is executed in that phase, and the exception is the result of the pass.
\<close>

theorem unresolved_decision_is_fatal_to_the_pass:
  assumes "current_dirno < length dirs"
    and "endswith (dirs ! current_dirno) ''-alternative''"
    and "map_of (plugins pr) (dirs ! current_dirno) = Some subplugins"
    and "test_plugins_on_value pr
           \<lparr>issue = (issue r)\<lparr>current_phase := dirs ! current_dirno\<rparr>,
            log = log r @ [LogPhase (dirs ! current_dirno)]\<rparr> subplugins = Inr (possible, r1)"
    and "possible \<noteq> []"
    and "ds pr = Some d"
    and "decide d (issue r1) (possible_kis_of pr possible) = (Decision label, i)"
    and "label \<notin> set (possible_kis_of pr possible)"
  shows "\<exists>e. phases_loop pr dirs current_dirno r =
           Some (Raised e \<lparr>issue = i, log = log r1 @ [CallDecide (possible_kis_of pr possible)]\<rparr>)
         \<and> (e = ValueError \<or> e = IndexError)
         \<and> acts (log r1 @ [CallDecide (possible_kis_of pr possible)]) = acts (log r)"
proof -
  let ?directory = "dirs ! current_dirno"
  let ?r0 = "\<lparr>issue = (issue r)\<lparr>current_phase := ?directory\<rparr>, log = log r @ [LogPhase ?directory]\<rparr>"
  let ?r2 = "\<lparr>issue = i, log = log r1 @ [CallDecide (possible_kis_of pr possible)]\<rparr>"
  obtain e where e: "decide_on_plugin pr r1 possible = (Inl e, ?r2)" "e = ValueError \<or> e = IndexError"
    using decide_on_plugin_unresolved [OF assms(6,7,8,5)] by blast
  have "fold remove1 [] possible = possible" by simp
  from alternative_phase [OF assms(2,4) this assms(5)]
  have "phase_rounds pr ?directory subplugins [] ?r0 = Some (Raised e ?r2)"
    using e by simp
  then have "phase_invocation pr ?directory r = Some (Raised e ?r2)"
    using assms(3) by (simp add: phase_invocation_def Let_def)
  then have "phases_loop pr dirs current_dirno r = Some (Raised e ?r2)"
    using assms(1) by (subst phases_loop.simps) simp
  moreover obtain evs where "log r1 = log ?r0 @ LogTestPlugins # evs" "acts evs = []"
    using test_plugins_on_value_log [OF assms(4)] by blast
  ultimately show ?thesis
    using e(2) by auto
qed

theorem unresolved_decision_is_fatal_to_the_pass_witness:
  "\<exists>e. phases_loop (demo\<lparr>ds := Some takes_nobody\<rparr>)
          [''10-detect'', ''20-remediate-alternative'', ''30-cleanup-parallel''] 1 demo_fresh =
     Some (Raised e
        \<lparr>issue = \<lparr>current_phase = ''20-remediate-alternative'', reward = 0, payload = False\<rparr>,
         log = [LogPhase ''20-remediate-alternative'', LogTestPlugins, CallTest 3, WarnTest 3,
                CallTest 5, CallTest 6, CallDecide [''Mark:B'', ''Crash:C'']]\<rparr>)"
proof -
  let ?pr = "demo\<lparr>ds := Some takes_nobody\<rparr>"
  let ?dirs = "[''10-detect'', ''20-remediate-alternative'', ''30-cleanup-parallel'']"
  let ?r1 = "\<lparr>issue = \<lparr>current_phase = ''20-remediate-alternative'', reward = 0, payload = False\<rparr>,
        log = [LogPhase ''20-remediate-alternative'', LogTestPlugins, CallTest 3, WarnTest 3,
               CallTest 5, CallTest 6]\<rparr>"
  have a: "1 < length ?dirs"
    by simp
  have b: "endswith (?dirs ! 1) ''-alternative''"
    by (simp add: endswith_def)
  have c: "map_of (plugins ?pr) (?dirs ! 1) = Some [3, 5, 6]"
    by (simp add: demo_def demo_phases_def)
  have d: "test_plugins_on_value ?pr
           \<lparr>issue = (issue demo_fresh)\<lparr>current_phase := ?dirs ! 1\<rparr>,
            log = log demo_fresh @ [LogPhase (?dirs ! 1)]\<rparr> [3, 5, 6] =
           Inr ([(5, ''B''), (6, ''C'')], ?r1)"
    by code_simp
  have e: "[(5::nat, ''B''), (6, ''C'')] \<noteq> []"
    by simp
  have f: "ds ?pr = Some takes_nobody"
    by simp
  have k: "possible_kis_of ?pr [(5, ''B''), (6, ''C'')] = [''Mark:B'', ''Crash:C'']"
    by code_simp
  have g: "decide takes_nobody (issue ?r1) (possible_kis_of ?pr [(5, ''B''), (6, ''C'')]) =
      (Decision ''Nobody:X'', issue ?r1)"
    by (simp add: takes_nobody_def)
  have h: "''Nobody:X'' \<notin> set (possible_kis_of ?pr [(5, ''B''), (6, ''C'')])"
    unfolding k by simp
  from unresolved_decision_is_fatal_to_the_pass [OF a b c d e f g h] show ?thesis
    unfolding k by auto
qed

subsection \<open>The next phase\<close>







lemma phases_loop_step:
  assumes "current_dirno < length dirs"
    and "phase_invocation pr (dirs ! current_dirno) r = Some (Returned r1)"
  shows "phases_loop pr dirs current_dirno r =
           phases_loop pr dirs (next_dirno dirs current_dirno (dirs ! current_dirno) (issue r1)) r1"
  using assms by (subst phases_loop.simps) simp






subsection \<open>The reward\<close>

lemma phase_rounds_relates:
  assumes "phase_rounds pr directory subplugins any_executed r = Some res"
    and checks: "\<And>any_executed r any_executed' r'.
      phase_round pr directory subplugins any_executed r = Checks any_executed' r' \<Longrightarrow> R r r'"
    and break: "\<And>any_executed r res.
      phase_round pr directory subplugins any_executed r = Break res \<Longrightarrow> R r (run_of res)"
    and trans: "\<And>a b c. R a b \<Longrightarrow> R b c \<Longrightarrow> R a c"
  shows "R r (run_of res)"
proof -
  have "pr = pr \<and> directory = directory \<and> subplugins = subplugins \<longrightarrow> R r (run_of res)"
  proof (rule phase_rounds.raw_induct
      [where P = "\<lambda>pr' directory' subplugins' any_executed r res.
         pr' = pr \<and> directory' = directory \<and> subplugins' = subplugins \<longrightarrow> R r (run_of res)",
       OF _ assms(1)], intro impI, elim conjE)
    fix f pr' directory' subplugins' any_executed r res
    assume IH: "\<And>pr' directory' subplugins' any_executed r res.
        f pr' directory' subplugins' any_executed r = Some res \<Longrightarrow>
        pr' = pr \<and> directory' = directory \<and> subplugins' = subplugins \<longrightarrow> R r (run_of res)"
      and eq: "(case phase_round pr' directory' subplugins' any_executed r of
          Break res \<Rightarrow> Some res
        | Checks any_executed' r' \<Rightarrow>
            if current_phase (issue r') \<noteq> directory' then Some (Returned r')
            else if length any_executed' = length any_executed then Some (Returned r')
            else f pr' directory' subplugins' any_executed' r') = Some res"
      and same: "pr' = pr" "directory' = directory" "subplugins' = subplugins"
    show "R r (run_of res)"
    proof (cases "phase_round pr directory subplugins any_executed r")
      case (Break res')
      with eq same have "res' = res" by simp
      with break [OF Break] show ?thesis by simp
    next
      case (Checks any_executed' r')
      note step = checks [OF Checks]
      show ?thesis
      proof (cases "current_phase (issue r') \<noteq> directory \<or> length any_executed' = length any_executed")
        case True
        with eq same Checks have "res = Returned r'" by (auto split: if_splits)
        with step show ?thesis by simp
      next
        case False
        with eq same Checks have "f pr directory subplugins any_executed' r' = Some res"
          by (auto split: if_splits)
        from IH [OF this] have "R r' (run_of res)" by simp
        with step show ?thesis by (rule trans)
      qed
    qed
  qed
  then show ?thesis by simp
qed

lemma leaves_reward_test:
  "leaves_reward pr \<Longrightarrow> test (plugin_at pr n) i = (res, i') \<Longrightarrow> reward i' = reward i"
  unfolding leaves_reward_def by (metis snd_conv)

lemma leaves_reward_process:
  "leaves_reward pr \<Longrightarrow> process (plugin_at pr n) i c = (res, i') \<Longrightarrow> reward i' = reward i"
  unfolding leaves_reward_def by (metis snd_conv)

lemma leaves_reward_decide:
  "leaves_reward pr \<Longrightarrow> ds pr = Some d \<Longrightarrow> decide d i possible_kis = (res, i') \<Longrightarrow>
     reward i' = reward i"
  unfolding leaves_reward_def by (metis snd_conv)

lemma execute_reward:
  assumes "leaves_reward pr"
  shows "reward (issue (run_of (execute_plugin_with_context pr r p c))) = reward (issue r)"
  using assms unfolding execute_plugin_with_context_def
  by (auto split: prod.splits outcome.splits option.splits dest: leaves_reward_process)

lemma execute_all_reward:
  assumes "leaves_reward pr"
  shows "reward (issue (run_after (execute_all pr ps ae r))) = reward (issue r)"
proof (induction ps arbitrary: ae r)
  case Nil
  then show ?case by simp
next
  case (Cons p ps)
  show ?case
    using execute_reward [OF assms, of r "fst p" "snd p"] Cons.IH
    by (cases "execute_plugin_with_context pr r (fst p) (snd p)") simp_all
qed

lemma test_plugins_loop_reward:
  assumes "leaves_reward pr"
  shows "reward (issue (run_after (test_plugins_loop pr ps passed r))) = reward (issue r)"
proof (induction ps arbitrary: passed r)
  case Nil
  then show ?case by simp
next
  case (Cons p ps)
  obtain res i where t: "test (plugin_at pr p) (issue r) = (res, i)"
    by (cases "test (plugin_at pr p) (issue r)")
  then have "reward i = reward (issue r)"
    using assms leaves_reward_test by blast
  then show ?case
    using t Cons.IH by (cases res) (simp_all split: option.splits)
qed

lemma test_plugins_on_value_reward:
  assumes "leaves_reward pr"
  shows "reward (issue (run_after (test_plugins_on_value pr r subplugins))) = reward (issue r)"
  using test_plugins_loop_reward [OF assms, of subplugins "[]"
      "r\<lparr>log := log r @ [LogTestPlugins]\<rparr>"]
  by (simp add: test_plugins_on_value_def)

lemma decide_on_plugin_reward:
  "leaves_reward pr \<Longrightarrow> reward (issue (snd (decide_on_plugin pr r possible))) = reward (issue r)"
  by (auto simp: decide_on_plugin_def Let_def
      split: list.splits option.splits prod.splits decision.splits
      dest: leaves_reward_decide)

lemma phase_round_run:
  assumes test: "\<And>r ps. R r (run_after (test_plugins_on_value pr r ps))"
    and exec: "\<And>r p c. R r (run_of (execute_plugin_with_context pr r p c))"
    and exec_all: "\<And>r ps ae. R r (run_after (execute_all pr ps ae r))"
    and decide: "\<And>r ps. ps \<noteq> [] \<Longrightarrow> R r (snd (decide_on_plugin pr r ps))"
    and logged: "\<And>r d. R r (r\<lparr>log := log r @ [LogNoPossible d]\<rparr>)"
    and trans: "\<And>a b c. R a b \<Longrightarrow> R b c \<Longrightarrow> R a c"
  shows "phase_round pr directory subplugins any_executed r = Checks any_executed' r' \<Longrightarrow>
           R r r'"
    and "phase_round pr directory subplugins any_executed r = Break res \<Longrightarrow>
           R r (run_of res)"
proof -
  let ?possible = "\<lambda>tested. fold remove1 any_executed tested"
  have t: "R r r1" if "test_plugins_on_value pr r subplugins = Inr (tested, r1)" for tested r1
    using test [of r subplugins] that by simp
  have t': "R r r1" if "test_plugins_on_value pr r subplugins = Inl (e, r1)" for e r1
    using test [of r subplugins] that by simp
  have ea: "R r1 r2" if "execute_all pr ps ae r1 = Inr (ae', r2)" for ps ae r1 ae' r2
    using exec_all [of r1 ps ae] that by simp
  have ea': "R r1 r2" if "execute_all pr ps ae r1 = Inl (e, r2)" for ps ae r1 e r2
    using exec_all [of r1 ps ae] that by simp
  have ex: "R r1 r2" if "execute_plugin_with_context pr r1 p c = Returned r2" for r1 p c r2
    using exec [of r1 p c] that by simp
  have ex': "R r1 r2" if "execute_plugin_with_context pr r1 p c = Raised e r2" for r1 p c e r2
    using exec [of r1 p c] that by simp
  have ex'': "R r1 (run_of (execute_plugin_with_context pr r2 p c))"
    if "R r1 r2" for r1 r2 p c
    using that exec [of r2 p c] by (rule trans)
  have d: "R r1 r2" if "decide_on_plugin pr r1 ps = (x, r2)" "ps \<noteq> []" for r1 ps x r2
    using decide [of ps r1] that by simp
  show "phase_round pr directory subplugins any_executed r = Checks any_executed' r' \<Longrightarrow>
           R r r'"
    by (auto simp: phase_round_def Let_def
        split: if_splits prod.splits sum.splits result.splits
        dest!: t ea ex intro: trans)
  show "phase_round pr directory subplugins any_executed r = Break res \<Longrightarrow>
           R r (run_of res)"
  proof -
    assume b: "phase_round pr directory subplugins any_executed r = Break res"
    show ?thesis
    proof (cases "test_plugins_on_value pr r subplugins")
      case (Inl a)
      then obtain e r1 where i: "test_plugins_on_value pr r subplugins = Inl (e, r1)"
        by (cases a) simp
      with b t' [OF i] show ?thesis
        by (auto simp: phase_round_def)
    next
      case (Inr a)
      then obtain tested r1 where i: "test_plugins_on_value pr r subplugins = Inr (tested, r1)"
        by (cases a) simp
      note r1 = t [OF i]
      show ?thesis
      proof (cases "?possible tested = []")
        case True
        with b i have "res = Returned (r1\<lparr>log := log r1 @ [LogNoPossible directory]\<rparr>)"
          by (simp add: phase_round_def)
        with r1 logged [of r1 directory] show ?thesis
          by (auto intro: trans)
      next
        case False
        show ?thesis
        proof (cases "endswith directory ''-parallel''")
          case True
          with b i False show ?thesis
            using r1 by (auto simp: phase_round_def Let_def split: sum.splits dest!: ea' intro: trans)
        next
          case np: False
          show ?thesis
          proof (cases "endswith directory ''-alternative''")
            case True
            obtain x r2 where dd: "decide_on_plugin pr r1 (?possible tested) = (x, r2)"
              by (cases "decide_on_plugin pr r1 (?possible tested)")
            from d [OF dd False] r1 have r2: "R r r2"
              by (auto intro: trans)
            from b i False np True dd r2 ex'' [OF r2] show ?thesis
              by (auto simp: phase_round_def Let_def split: sum.splits)
          next
            case False
            with b i \<open>?possible tested \<noteq> []\<close> np show ?thesis
              using ex'' [OF r1]
              by (auto simp: phase_round_def Let_def split: result.splits)
          qed
        qed
      qed
    qed
  qed
qed

lemma phase_round_reward:
  assumes "leaves_reward pr"
  shows "phase_round pr directory subplugins any_executed r = Checks any_executed' r' \<Longrightarrow>
           reward (issue r') = reward (issue r)"
    and "phase_round pr directory subplugins any_executed r = Break res \<Longrightarrow>
           reward (issue (run_of res)) = reward (issue r)"
proof -
  show "phase_round pr directory subplugins any_executed r = Checks any_executed' r' \<Longrightarrow>
           reward (issue r') = reward (issue r)"
    by (rule phase_round_run(1) [where R = "\<lambda>r r'. reward (issue r') = reward (issue r)"])
      (simp_all add: test_plugins_on_value_reward [OF assms] execute_reward [OF assms]
        execute_all_reward [OF assms] decide_on_plugin_reward [OF assms])
  show "phase_round pr directory subplugins any_executed r = Break res \<Longrightarrow>
           reward (issue (run_of res)) = reward (issue r)"
    by (rule phase_round_run(2) [where R = "\<lambda>r r'. reward (issue r') = reward (issue r)"])
      (simp_all add: test_plugins_on_value_reward [OF assms] execute_reward [OF assms]
        execute_all_reward [OF assms] decide_on_plugin_reward [OF assms])
qed

lemma phase_rounds_reward:
  assumes "leaves_reward pr"
    and "phase_rounds pr directory subplugins any_executed r = Some res"
  shows "reward (issue (run_of res)) = reward (issue r)"
  by (rule phase_rounds_relates
      [where R = "\<lambda>r r'. reward (issue r') = reward (issue r)", OF assms(2)])
    (simp_all add: phase_round_reward [OF assms(1)])

lemma phase_round_phases_begun:
  shows "phase_round pr directory subplugins any_executed r = Checks any_executed' r' \<Longrightarrow>
           phases_begun (log r') = phases_begun (log r)"
    and "phase_round pr directory subplugins any_executed r = Break res \<Longrightarrow>
           phases_begun (log (run_of res)) = phases_begun (log r)"
proof -
  have test: "phases_begun (log (run_after (test_plugins_on_value pr r ps))) =
      phases_begun (log r)" for r ps
    using test_plugins_loop_log [of pr ps "[]" "r\<lparr>log := log r @ [LogTestPlugins]\<rparr>"]
    by (auto simp: test_plugins_on_value_def)
  have exec: "phases_begun (log (run_of (execute_plugin_with_context pr r0 p c))) =
      phases_begun (log r0)" for r0 p c
    using execute_log [of pr r0 p c] is_execution_quiet by fastforce
  have exec_all: "phases_begun (log (run_after (execute_all pr ps ae r0))) =
      phases_begun (log r0)" for ps ae r0
    using execute_all_log [of pr ps ae r0] is_execution_quiet by fastforce
  have decide: "phases_begun (log (snd (decide_on_plugin pr r0 ps))) = phases_begun (log r0)"
    if "ps \<noteq> []" for r0 ps
    using decide_on_plugin_log [OF that, of pr r0] by auto
  show "phase_round pr directory subplugins any_executed r = Checks any_executed' r' \<Longrightarrow>
           phases_begun (log r') = phases_begun (log r)"
    by (rule phase_round_run(1) [where R = "\<lambda>r r'. phases_begun (log r') = phases_begun (log r)"])
      (simp_all add: test exec exec_all decide)
  show "phase_round pr directory subplugins any_executed r = Break res \<Longrightarrow>
           phases_begun (log (run_of res)) = phases_begun (log r)"
    by (rule phase_round_run(2) [where R = "\<lambda>r r'. phases_begun (log r') = phases_begun (log r)"])
      (simp_all add: test exec exec_all decide)
qed

lemma phase_rounds_phases_begun:
  assumes "phase_rounds pr directory subplugins any_executed r = Some res"
  shows "phases_begun (log (run_of res)) = phases_begun (log r)"
  by (rule phase_rounds_relates
      [where R = "\<lambda>r r'. phases_begun (log r') = phases_begun (log r)", OF assms])
    (simp_all add: phase_round_phases_begun)

lemma phase_invocation_reward:
  assumes "leaves_reward pr"
    and "phase_invocation pr directory r = Some res"
  shows "reward (issue (run_of res)) =
           reward (issue r) + (if raised res then 0 else auto_reward pr)"
    and "phases_begun (log (run_of res)) = phases_begun (log r) @ [directory]"
proof -
  let ?r0 = "\<lparr>issue = (issue r)\<lparr>current_phase := directory\<rparr>, log = log r @ [LogPhase directory]\<rparr>"
  show "reward (issue (run_of res)) =
           reward (issue r) + (if raised res then 0 else auto_reward pr)"
  proof (cases "map_of (plugins pr) directory")
    case None
    with assms(2) show ?thesis by (auto simp: phase_invocation_def)
  next
    case (Some subplugins)
    with assms(2) obtain res0 where res0:
      "phase_rounds pr directory subplugins [] ?r0 = Some res0" "res = add_auto_reward pr res0"
      by (auto simp: phase_invocation_def)
    from phase_rounds_reward [OF assms(1) res0(1)] res0(2) show ?thesis
      by (cases res0) simp_all
  qed
  show "phases_begun (log (run_of res)) = phases_begun (log r) @ [directory]"
  proof (cases "map_of (plugins pr) directory")
    case None
    with assms(2) show ?thesis by (auto simp: phase_invocation_def)
  next
    case (Some subplugins)
    with assms(2) obtain res0 where res0:
      "phase_rounds pr directory subplugins [] ?r0 = Some res0" "res = add_auto_reward pr res0"
      by (auto simp: phase_invocation_def)
    from phase_rounds_phases_begun [OF res0(1)] res0(2) show ?thesis
      by (cases res0) simp_all
  qed
qed

lemma phases_loop_reward:
  assumes "phases_loop pr dirs current_dirno r = Some res"
    and "leaves_reward pr"
  shows "\<exists>begun. phases_begun (log (run_of res)) = phases_begun (log r) @ begun
           \<and> (raised res \<longrightarrow> begun \<noteq> [])
           \<and> reward (issue (run_of res)) =
               reward (issue r) + auto_reward pr * (int (length begun) - (if raised res then 1 else 0))"
proof -
  let ?Q = "\<lambda>pr r res. \<exists>begun. phases_begun (log (run_of res)) = phases_begun (log r) @ begun
           \<and> (raised res \<longrightarrow> begun \<noteq> [])
           \<and> reward (issue (run_of res)) =
               reward (issue r) + auto_reward pr * (int (length begun) - (if raised res then 1 else 0))"
  have "leaves_reward pr \<longrightarrow> ?Q pr r res"
  proof (rule phases_loop.raw_induct
      [where P = "\<lambda>pr dirs current_dirno r res. leaves_reward pr \<longrightarrow> ?Q pr r res",
       OF _ assms(1)], intro impI)
    fix f pr dirs current_dirno r res
    assume IH: "\<And>pr dirs current_dirno r res.
        f pr dirs current_dirno r = Some res \<Longrightarrow> leaves_reward pr \<longrightarrow> ?Q pr r res"
      and eq: "(if current_dirno < length dirs then
        Option.bind (phase_invocation pr (dirs ! current_dirno) r)
          (\<lambda>res. case res of
             Raised e r1 \<Rightarrow> Some (Raised e r1)
           | Returned r1 \<Rightarrow>
               f pr dirs
                 (next_dirno dirs current_dirno (dirs ! current_dirno) (issue r1)) r1)
      else Some (Returned r)) = Some res"
      and lr: "leaves_reward pr"
    show "?Q pr r res"
    proof (cases "current_dirno < length dirs")
      case False
      with eq have "res = Returned r" by simp
      then show ?thesis by simp
    next
      case True
      with eq obtain res1 where inv: "phase_invocation pr (dirs ! current_dirno) r = Some res1"
        and rest: "(case res1 of
             Raised e r1 \<Rightarrow> Some (Raised e r1)
           | Returned r1 \<Rightarrow>
               f pr dirs
                 (next_dirno dirs current_dirno (dirs ! current_dirno) (issue r1)) r1) = Some res"
        by (auto simp: bind_eq_Some_conv)
      note one = phase_invocation_reward [OF lr inv]
      show ?thesis
      proof (cases res1)
        case (Raised e r1)
        with rest have "res = res1" by simp
        with one Raised show ?thesis by simp
      next
        case (Returned r1)
        with rest have "f pr dirs
            (next_dirno dirs current_dirno (dirs ! current_dirno) (issue r1)) r1 = Some res"
          by simp
        from IH [OF this] lr obtain begun where
          b: "phases_begun (log (run_of res)) = phases_begun (log r1) @ begun"
            "raised res \<longrightarrow> begun \<noteq> []"
            "reward (issue (run_of res)) =
               reward (issue r1) + auto_reward pr * (int (length begun) - (if raised res then 1 else 0))"
          by blast
        show ?thesis
          using one Returned b
          by (intro exI [of _ "dirs ! current_dirno # begun"]) (simp add: algebra_simps)
      qed
    qed
  qed
  with assms(2) show ?thesis by simp
qed

lemma pass_reward:
  assumes "leaves_reward pr"
  shows "\<forall>r res.
            apply_all_plugins_on_value pr r = Some res \<longrightarrow>
            (\<exists>begun. phases_begun (log (run_of res)) = phases_begun (log r) @ begun
               \<and> reward (issue (run_of res)) =
                   auto_reward pr * (int (length begun) - (if raised res then 1 else 0)))"
proof (intro allI impI)
  fix r res
  assume "apply_all_plugins_on_value pr r = Some res"
  then have "phases_loop pr (dirs_of pr) 0 (r\<lparr>issue := (issue r)\<lparr>reward := 0\<rparr>\<rparr>) = Some res"
    by (simp add: apply_all_plugins_on_value_def)
  from phases_loop_reward [OF this assms] obtain begun where
    "phases_begun (log (run_of res)) =
       phases_begun (log (r\<lparr>issue := (issue r)\<lparr>reward := 0\<rparr>\<rparr>)) @ begun
     \<and> (raised res \<longrightarrow> begun \<noteq> [])
     \<and> reward (issue (run_of res)) =
       reward (issue (r\<lparr>issue := (issue r)\<lparr>reward := 0\<rparr>\<rparr>)) +
       auto_reward pr * (int (length begun) - (if raised res then 1 else 0))"
    ..
  then have "phases_begun (log (run_of res)) = phases_begun (log r) @ begun
      \<and> reward (issue (run_of res)) =
          auto_reward pr * (int (length begun) - (if raised res then 1 else 0))"
    by simp
  then show "\<exists>begun. phases_begun (log (run_of res)) = phases_begun (log r) @ begun
               \<and> reward (issue (run_of res)) =
                   auto_reward pr * (int (length begun) - (if raised res then 1 else 0))"
    by (rule exI)
qed


lemma phases_loop_reward_mono:
  assumes "leaves_reward pr" and nonneg: "0 \<le> auto_reward pr"
    and loop: "phases_loop pr dirs current_dirno r = Some res"
  shows "reward (issue r) \<le> reward (issue (run_of res))"
proof -
  from phases_loop_reward [OF loop assms(1)] obtain begun where
    b: "phases_begun (log (run_of res)) = phases_begun (log r) @ begun
        \<and> (raised res \<longrightarrow> begun \<noteq> [])
        \<and> reward (issue (run_of res)) =
            reward (issue r) + auto_reward pr * (int (length begun) - (if raised res then 1 else 0))"
    ..
  note b1 = b [THEN conjunct2, THEN conjunct1] and b2 = b [THEN conjunct2, THEN conjunct2]
  define n where "n = int (length begun) - (if raised res then 1 else 0)"
  have "0 \<le> n"
  proof (cases "raised res")
    case True
    with b1 have "0 < length begun" by simp
    with True show ?thesis unfolding n_def by simp
  next
    case False
    then show ?thesis unfolding n_def by simp
  qed
  with nonneg have "0 \<le> auto_reward pr * n"
    by (rule mult_nonneg_nonneg)
  moreover have "reward (issue (run_of res)) = reward (issue r) + auto_reward pr * n"
    using b2 unfolding n_def .
  ultimately show ?thesis
    by linarith
qed

text \<open>
  Claim C4, as stated, fails: \<^verbatim>\<open>auto_reward\<close> is whatever number the processor
  was constructed with, and with a negative one \<^verbatim>\<open>_reward\<close> decreases with every
  phase. Here it is \<open>-1\<close> and the pass over three phases ends with \<open>-3\<close>.
\<close>

theorem reward_decreases_with_negative_auto_reward:
  "apply_all_plugins_on_value (demo\<lparr>auto_reward := - 1\<rparr>) demo_fresh =
     Some (Returned
       \<lparr>issue = \<lparr>current_phase = ''30-cleanup-parallel'', reward = - 3, payload = True\<rparr>,
        log = [LogPhase ''10-detect'', LogTestPlugins, CallTest 0, CallTest 1,
               LogExecuting 1 ''B'', CallProcess 1 ''B'', LogTestPlugins, CallTest 0,
               CallTest 1,
               LogNoPossible ''10-detect'',
               LogPhase ''20-remediate-alternative'', LogTestPlugins, CallTest 3,
               WarnTest 3, CallTest 5, CallTest 6, LogExecuting 5 ''B'',
               CallProcess 5 ''B'',
               LogPhase ''30-cleanup-parallel'', LogTestPlugins, CallTest 2,
               CallTest 4, LogExecuting 4 ''C'', CallProcess 4 ''C'', WarnExecute 4 ''C'',
               LogTestPlugins, CallTest 2, CallTest 4,
               LogNoPossible ''30-cleanup-parallel'']\<rparr>)"
  by code_simp

text \<open>
  Claim C4, amended. As long as no plugin and no decision service writes
  \<^verbatim>\<open>_reward\<close>: the rounds of a phase do not change it; a phase invocation that
  returns changes it by exactly \<^verbatim>\<open>auto_reward\<close>, whatever ran inside and also
  when no candidate matched; a pass sets it to 0 first and ends with
  \<^verbatim>\<open>auto_reward\<close> times the number of phase invocations that returned (a phase
  that raises adds nothing); and when \<^verbatim>\<open>auto_reward\<close> is not negative, it never
  decreases from any state of the loop over the phases to the end.
\<close>

theorem reward_changes_by_auto_reward_per_phase:
  assumes "leaves_reward pr"
  shows "(\<forall>directory subplugins any_executed r res.
            phase_rounds pr directory subplugins any_executed r = Some res \<longrightarrow>
            reward (issue (run_of res)) = reward (issue r))
       \<and> (\<forall>directory r r1.
            phase_invocation pr directory r = Some (Returned r1) \<longrightarrow>
            reward (issue r1) = reward (issue r) + auto_reward pr)
       \<and> (\<forall>r res.
            apply_all_plugins_on_value pr r = Some res \<longrightarrow>
            (\<exists>begun. phases_begun (log (run_of res)) = phases_begun (log r) @ begun
               \<and> reward (issue (run_of res)) =
                   auto_reward pr * (int (length begun) - (if raised res then 1 else 0))))
       \<and> (0 \<le> auto_reward pr \<longrightarrow>
            (\<forall>dirs current_dirno r res.
               phases_loop pr dirs current_dirno r = Some res \<longrightarrow>
               reward (issue r) \<le> reward (issue (run_of res))))"
proof (intro conjI)
  show "\<forall>directory subplugins any_executed r res.
            phase_rounds pr directory subplugins any_executed r = Some res \<longrightarrow>
            reward (issue (run_of res)) = reward (issue r)"
    by (intro allI impI) (rule phase_rounds_reward [OF assms])
  show "\<forall>directory r r1.
            phase_invocation pr directory r = Some (Returned r1) \<longrightarrow>
            reward (issue r1) = reward (issue r) + auto_reward pr"
  proof (intro allI impI)
    fix directory r r1
    assume "phase_invocation pr directory r = Some (Returned r1)"
    from phase_invocation_reward(1) [OF assms this]
    show "reward (issue r1) = reward (issue r) + auto_reward pr"
      by simp
  qed
  show "\<forall>r res.
            apply_all_plugins_on_value pr r = Some res \<longrightarrow>
            (\<exists>begun. phases_begun (log (run_of res)) = phases_begun (log r) @ begun
               \<and> reward (issue (run_of res)) =
                   auto_reward pr * (int (length begun) - (if raised res then 1 else 0)))"
    by (rule pass_reward [OF assms])
  show "0 \<le> auto_reward pr \<longrightarrow>
            (\<forall>dirs current_dirno r res.
               phases_loop pr dirs current_dirno r = Some res \<longrightarrow>
               reward (issue r) \<le> reward (issue (run_of res)))"
    by (intro allI impI) (rule phases_loop_reward_mono [OF assms])
qed

theorem reward_changes_by_auto_reward_per_phase_witness:
  "reward (issue (run_of (the (apply_all_plugins_on_value demo demo_fresh)))) = 3
   \<and> phases_begun (log (run_of (the (apply_all_plugins_on_value demo demo_fresh)))) =
       [''10-detect'', ''20-remediate-alternative'', ''30-cleanup-parallel'']"
proof -
  have lr: "leaves_reward demo"
    by (simp add: leaves_reward_def demo_def demo_plugin_def)
  let ?end = "\<lparr>issue = \<lparr>current_phase = ''30-cleanup-parallel'', reward = 3, payload = True\<rparr>,
        log = [LogPhase ''10-detect'', LogTestPlugins, CallTest 0, CallTest 1,
               LogExecuting 1 ''B'', CallProcess 1 ''B'', LogTestPlugins, CallTest 0,
               CallTest 1,
               LogNoPossible ''10-detect'',
               LogPhase ''20-remediate-alternative'', LogTestPlugins, CallTest 3,
               WarnTest 3, CallTest 5, CallTest 6, LogExecuting 5 ''B'',
               CallProcess 5 ''B'',
               LogPhase ''30-cleanup-parallel'', LogTestPlugins, CallTest 2,
               CallTest 4, LogExecuting 4 ''C'', CallProcess 4 ''C'', WarnExecute 4 ''C'',
               LogTestPlugins, CallTest 2, CallTest 4,
               LogNoPossible ''30-cleanup-parallel'']\<rparr>"
  have run: "apply_all_plugins_on_value demo demo_fresh = Some (Returned ?end)"
    by code_simp
  from reward_changes_by_auto_reward_per_phase [OF lr, THEN conjunct2, THEN conjunct2,
      THEN conjunct1, rule_format, OF run]
  obtain begun where
    "phases_begun (log (run_of (Returned ?end))) = phases_begun (log demo_fresh) @ begun
     \<and> reward (issue (run_of (Returned ?end))) =
         auto_reward demo * (int (length begun) - (if raised (Returned ?end) then 1 else 0))"
    ..
  then show ?thesis
    unfolding run by (simp add: demo_def demo_fresh_def)
qed

subsection \<open>Exceptions of plugins\<close>

text \<open>
  Claim C6 does not hold of the code for a plugin object that has no description. The
  first plugin of the phase \<^verbatim>\<open>10-detect\<close> of the installation \<open>bare_phases\<close> is
  such an object, and its \<^verbatim>\<open>test\<close> raises. The handler of that exception (line
  147) reads the description for its warning and raises AttributeError, which nothing
  catches: the pass ends with it, the second plugin of the phase is not tested and the
  phase \<^verbatim>\<open>20-remediate-alternative\<close> is not begun. With a plugin in its place
  whose \<^verbatim>\<open>test\<close> raises as well, but which has a description, the pass goes on
  through both phases.
\<close>

theorem exception_of_a_plugin_without_description_ends_the_pass:
  "test (demo_plugin 8) \<lparr>current_phase = ''10-detect'', reward = 0, payload = False\<rparr> =
     (TestRaises, \<lparr>current_phase = ''10-detect'', reward = 0, payload = False\<rparr>)
   \<and> description (demo_plugin 8) = None
   \<and> apply_all_plugins_on_value (demo\<lparr>plugins := bare_phases\<rparr>) demo_fresh =
     Some (Raised AttributeError
       \<lparr>issue = \<lparr>current_phase = ''10-detect'', reward = 0, payload = False\<rparr>,
        log = [LogPhase ''10-detect'', LogTestPlugins, CallTest 8]\<rparr>)
   \<and> apply_all_plugins_on_value (demo\<lparr>plugins := broken_phases\<rparr>) demo_fresh =
     Some (Returned
       \<lparr>issue = \<lparr>current_phase = ''20-remediate-alternative'', reward = 2, payload = True\<rparr>,
        log = [LogPhase ''10-detect'', LogTestPlugins, CallTest 3, WarnTest 3, CallTest 1,
               LogExecuting 1 ''B'', CallProcess 1 ''B'',
               LogTestPlugins, CallTest 3, WarnTest 3, CallTest 1,
               LogNoPossible ''10-detect'',
               LogPhase ''20-remediate-alternative'', LogTestPlugins, CallTest 5,
               LogExecuting 5 ''B'', CallProcess 5 ''B'']\<rparr>)"
  by code_simp

lemma quiet_append [simp]: "quiet (xs @ ys) = quiet xs @ quiet ys"
  by (simp add: quiet_def)

lemma quiet_simps [simp]:
  "quiet [] = []"
  "quiet (WarnTest p # es) = quiet es"
  "quiet (WarnExecute p c # es) = quiet es"
  "quiet (CallTest p # es) = CallTest p # quiet es"
  "quiet (LogExecuting p c # es) = LogExecuting p c # quiet es"
  "quiet (CallProcess p c # es) = CallProcess p c # quiet es"
  "quiet (LogTestPlugins # es) = LogTestPlugins # quiet es"
  "quiet (LogPhase d # es) = LogPhase d # quiet es"
  "quiet (LogNoPossible d # es) = LogNoPossible d # quiet es"
  "quiet (CallDecide ks # es) = CallDecide ks # quiet es"
  "quiet (CallFinishEpisode # es) = CallFinishEpisode # quiet es"
  by (simp_all add: quiet_def)

lemma quiet_run_eq:
  "quiet_run r = quiet_run r' \<longleftrightarrow> issue r = issue r' \<and> quiet (log r) = quiet (log r')"
  by (simp add: quiet_run_def)

lemma same_effects_sym: "same_effects pr pr' \<Longrightarrow> same_effects pr' pr"
  by (simp add: same_effects_def)

lemma calm_kind [simp]: "kind (calm p) = kind p"
  by (simp add: calm_def)

lemma calm_description [simp]: "description (calm p) = description p"
  by (simp add: calm_def)

lemma described_same: "same_effects pr pr' \<Longrightarrow> described pr \<Longrightarrow> described pr'"
  by (simp add: same_effects_def described_def)

lemma calm_process [simp]: "snd (process (calm p) i c) = snd (process p i c)"
  by (simp add: calm_def)

lemma calm_test [simp]:
  "offered (fst (test (calm p) i)) = offered (fst (test p i))"
  "snd (test (calm p) i) = snd (test p i)"
  by (cases "test p i"; cases "fst (test p i)"; simp add: calm_def)+

lemma same_effects_calmed: "same_effects pr (calmed pr)"
  by (simp add: same_effects_def calmed_def)

lemma alike_execute:
  assumes "same_effects pr pr'" and "described pr" and "quiet_run r = quiet_run r'"
  shows "quiet_result (execute_plugin_with_context pr r p c) =
         quiet_result (execute_plugin_with_context pr' r' p c)"
proof -
  have i: "issue r = issue r'" and l: "quiet (log r) = quiet (log r')"
    using assms(3) by (simp_all add: quiet_run_eq)
  obtain d where d: "description (plugin_at pr p) = Some d"
    using assms(2) by (auto simp: described_def)
  then have d': "description (plugin_at pr' p) = Some d"
    using assms(1) by (simp add: same_effects_def)
  have s: "snd (process (plugin_at pr' p) (issue r') c) = snd (process (plugin_at pr p) (issue r) c)"
    using assms(1) i by (simp add: same_effects_def)
  obtain o1 i1 where p1: "process (plugin_at pr p) (issue r) c = (o1, i1)"
    by (cases "process (plugin_at pr p) (issue r) c")
  obtain o2 i2 where p2: "process (plugin_at pr' p) (issue r') c = (o2, i2)"
    by (cases "process (plugin_at pr' p) (issue r') c")
  from s p1 p2 have "i2 = i1" by simp
  then show ?thesis
    using p1 p2 l d d'
    by (cases o1; cases o2) (simp_all add: execute_plugin_with_context_def quiet_run_eq)
qed

lemma alike_execute_all:
  assumes "same_effects pr pr'" and "described pr" and "quiet_run r = quiet_run r'"
  shows "\<exists>r2 r2'. execute_all pr ps ae r = Inr (ae @ ps, r2)
       \<and> execute_all pr' ps ae r' = Inr (ae @ ps, r2')
       \<and> quiet_run r2 = quiet_run r2'"
  using assms(3)
proof (induction ps arbitrary: ae r r')
  case Nil
  then show ?case by simp
next
  case (Cons p ps)
  have D: "description (plugin_at pr (fst p)) \<noteq> None"
    using assms(2) by (simp add: described_def)
  have D': "description (plugin_at pr' (fst p)) \<noteq> None"
    using described_same [OF assms(1,2)] by (simp add: described_def)
  obtain r1 where r1: "execute_plugin_with_context pr r (fst p) (snd p) = Returned r1"
    using execute_described [OF D, of r "snd p"] by blast
  obtain r1' where r1': "execute_plugin_with_context pr' r' (fst p) (snd p) = Returned r1'"
    using execute_described [OF D', of r' "snd p"] by blast
  from alike_execute [OF assms(1,2) Cons.prems, of "fst p" "snd p"] r1 r1'
  have "quiet_run r1 = quiet_run r1'"
    by simp
  from Cons.IH [OF this, of "ae @ [p]"] r1 r1' show ?case
    by simp
qed

lemma alike_test_plugins_loop:
  assumes "same_effects pr pr'" and "described pr" and "quiet_run r = quiet_run r'"
  shows "\<exists>tested r1 r1'. test_plugins_loop pr ps passed r = Inr (tested, r1)
       \<and> test_plugins_loop pr' ps passed r' = Inr (tested, r1')
       \<and> quiet_run r1 = quiet_run r1'"
  using assms(3)
proof (induction ps arbitrary: passed r r')
  case Nil
  then show ?case by simp
next
  case (Cons p ps)
  have i: "issue r = issue r'" and l: "quiet (log r) = quiet (log r')"
    using Cons.prems by (simp_all add: quiet_run_eq)
  have D: "description (plugin_at pr p) \<noteq> None"
    using assms(2) by (simp add: described_def)
  have D': "description (plugin_at pr' p) \<noteq> None"
    using described_same [OF assms(1,2)] by (simp add: described_def)
  obtain res1 i1 where t1: "test (plugin_at pr p) (issue r) = (res1, i1)"
    by (cases "test (plugin_at pr p) (issue r)")
  obtain res2 i2 where t2: "test (plugin_at pr' p) (issue r') = (res2, i2)"
    by (cases "test (plugin_at pr' p) (issue r')")
  have same: "offered res2 = offered res1" "i2 = i1"
    using assms(1) i t1 t2 unfolding same_effects_def by (metis fst_conv, metis snd_conv)
  define e1 :: "'b event list" where
    "e1 = (if res1 = TestRaises then [CallTest p, WarnTest p] else [CallTest p])"
  define e2 :: "'b event list" where
    "e2 = (if res2 = TestRaises then [CallTest p, WarnTest p] else [CallTest p])"
  have q: "quiet e1 = quiet e2"
    by (simp add: e1_def e2_def)
  have s1: "test_plugins_loop pr (p # ps) passed r =
      test_plugins_loop pr ps (passed @ map (Pair p) (offered res1)) \<lparr>issue = i1, log = log r @ e1\<rparr>"
    unfolding e1_def using t1 D by (intro test_plugins_loop_step) simp_all
  have "test_plugins_loop pr' (p # ps) passed r' =
      test_plugins_loop pr' ps (passed @ map (Pair p) (offered res2)) \<lparr>issue = i2, log = log r' @ e2\<rparr>"
    unfolding e2_def using t2 D' by (intro test_plugins_loop_step) simp_all
  then have s2: "test_plugins_loop pr' (p # ps) passed r' =
      test_plugins_loop pr' ps (passed @ map (Pair p) (offered res1)) \<lparr>issue = i1, log = log r' @ e2\<rparr>"
    by (simp only: same)
  have "quiet_run \<lparr>issue = i1, log = log r @ e1\<rparr> = quiet_run \<lparr>issue = i1, log = log r' @ e2\<rparr>"
    using l q by (simp add: quiet_run_eq)
  from Cons.IH [OF this] show ?case
    unfolding s1 s2 .
qed

lemma alike_test_plugins_on_value:
  assumes "same_effects pr pr'" and "described pr" and "quiet_run r = quiet_run r'"
  shows "\<exists>tested r1 r1'. test_plugins_on_value pr r subplugins = Inr (tested, r1)
       \<and> test_plugins_on_value pr' r' subplugins = Inr (tested, r1')
       \<and> quiet_run r1 = quiet_run r1'"
proof -
  have "quiet_run (r\<lparr>log := log r @ [LogTestPlugins]\<rparr>) =
      quiet_run (r'\<lparr>log := log r' @ [LogTestPlugins]\<rparr>)"
    using assms(3) by (simp add: quiet_run_eq)
  from alike_test_plugins_loop [OF assms(1,2) this, of subplugins "[]"]
  show ?thesis
    by (simp add: test_plugins_on_value_def)
qed

lemma same_effects_kis:
  "same_effects pr pr' \<Longrightarrow> possible_kis_of pr' possible = possible_kis_of pr possible"
  by (simp add: same_effects_def possible_kis_of_def)

lemma alike_decide_on_plugin:
  assumes "same_effects pr pr'" and "quiet_run r = quiet_run r'"
  shows "fst (decide_on_plugin pr r possible) = fst (decide_on_plugin pr' r' possible)
       \<and> quiet_run (snd (decide_on_plugin pr r possible)) =
           quiet_run (snd (decide_on_plugin pr' r' possible))"
proof -
  have i: "issue r' = issue r" and l: "quiet (log r') = quiet (log r)"
    using assms(2) by (simp_all add: quiet_run_eq)
  have k: "possible_kis_of pr' possible = possible_kis_of pr possible"
    using assms(1) by (rule same_effects_kis)
  have d: "ds pr' = ds pr" and kd: "\<And>n. kind (plugin_at pr' n) = kind (plugin_at pr n)"
    and st: "str_of pr' = str_of pr"
    using assms(1) by (simp_all add: same_effects_def)
  show ?thesis
    using assms(2)
    by (simp add: decide_on_plugin_def Let_def i l k d kd st quiet_run_eq
        split: list.splits option.splits prod.splits decision.splits)
qed

lemma alike_phase_round:
  assumes E: "same_effects pr pr'" and D: "described pr" and Q: "quiet_run r = quiet_run r'"
  shows "quiet_round (phase_round pr directory subplugins any_executed r) =
         quiet_round (phase_round pr' directory subplugins any_executed r')"
proof -
  from alike_test_plugins_on_value [OF E D Q, of subplugins]
  obtain tested r1 r1' where t: "test_plugins_on_value pr r subplugins = Inr (tested, r1)"
    and t': "test_plugins_on_value pr' r' subplugins = Inr (tested, r1')"
    and Q1: "quiet_run r1 = quiet_run r1'"
    by blast
  define possible where "possible = fold remove1 any_executed tested"
  have p: "fold remove1 any_executed tested = possible"
    by (simp add: possible_def)
  show ?thesis
  proof (cases "possible = []")
    case True
    have "quiet_run (r1\<lparr>log := log r1 @ [LogNoPossible directory]\<rparr>) =
        quiet_run (r1'\<lparr>log := log r1' @ [LogNoPossible directory]\<rparr>)"
      using Q1 by (simp add: quiet_run_eq)
    then show ?thesis
      using phase_round_empty [OF t p [unfolded True]] phase_round_empty [OF t' p [unfolded True]]
      by simp
  next
    case False
    show ?thesis
    proof (cases "endswith directory ''-parallel''")
      case True
      from alike_execute_all [OF E D Q1, of possible any_executed]
      obtain r2 r2' where "execute_all pr possible any_executed r1 = Inr (any_executed @ possible, r2)"
        "execute_all pr' possible any_executed r1' = Inr (any_executed @ possible, r2')"
        "quiet_run r2 = quiet_run r2'"
        by blast
      with phase_round_parallel [OF True t p False] phase_round_parallel [OF True t' p False]
      show ?thesis by simp
    next
      case np: False
      show ?thesis
      proof (cases "endswith directory ''-alternative''")
        case True
        obtain x r2 where d: "decide_on_plugin pr r1 possible = (x, r2)"
          by (cases "decide_on_plugin pr r1 possible")
        obtain x' r2' where d': "decide_on_plugin pr' r1' possible = (x', r2')"
          by (cases "decide_on_plugin pr' r1' possible")
        from alike_decide_on_plugin [OF E Q1, of possible] d d'
        have x: "x' = x" and Q2: "quiet_run r2 = quiet_run r2'"
          by simp_all
        show ?thesis
        proof (cases x)
          case (Inl e)
          with phase_round_alternative [OF True t p False]
            phase_round_alternative [OF True t' p False] d d' x Q2
          show ?thesis by simp
        next
          case (Inr c)
          with phase_round_alternative [OF True t p False]
            phase_round_alternative [OF True t' p False] d d' x
            alike_execute [OF E D Q2, of "fst c" "snd c"]
          show ?thesis by simp
        qed
      next
        case False
        let ?c = "last possible"
        have C: "description (plugin_at pr (fst ?c)) \<noteq> None"
          using D by (simp add: described_def)
        have C': "description (plugin_at pr' (fst ?c)) \<noteq> None"
          using described_same [OF E D] by (simp add: described_def)
        obtain r2 where r2: "execute_plugin_with_context pr r1 (fst ?c) (snd ?c) = Returned r2"
          using execute_described [OF C, of r1 "snd ?c"] by blast
        obtain r2' where r2': "execute_plugin_with_context pr' r1' (fst ?c) (snd ?c) = Returned r2'"
          using execute_described [OF C', of r1' "snd ?c"] by blast
        from phase_round_default [OF np False t p \<open>possible \<noteq> []\<close>]
          phase_round_default [OF np False t' p \<open>possible \<noteq> []\<close>]
          alike_execute [OF E D Q1, of "fst ?c" "snd ?c"] r2 r2'
        show ?thesis by simp
      qed
    qed
  qed
qed

lemma quiet_round_Break:
  "quiet_round x = quiet_round (Break res) \<Longrightarrow>
     \<exists>res'. x = Break res' \<and> quiet_result res' = quiet_result res"
  by (cases x) simp_all

lemma quiet_round_Checks:
  "quiet_round x = quiet_round (Checks any_executed r) \<Longrightarrow>
     \<exists>r'. x = Checks any_executed r' \<and> quiet_run r' = quiet_run r"
  by (cases x) simp_all

lemma alike_phase_rounds_Some:
  assumes "phase_rounds pr directory subplugins any_executed r = Some res"
    and "same_effects pr pr'" and "described pr" and "quiet_run r = quiet_run r'"
  shows "\<exists>res'. phase_rounds pr' directory subplugins any_executed r' = Some res'
           \<and> quiet_result res' = quiet_result res"
proof -
  let ?P = "\<lambda>pr directory subplugins any_executed r res.
      \<forall>pr' r'. same_effects pr pr' \<longrightarrow> described pr \<longrightarrow> quiet_run r = quiet_run r' \<longrightarrow>
        (\<exists>res'. phase_rounds pr' directory subplugins any_executed r' = Some res'
           \<and> quiet_result res' = quiet_result res)"
  have "?P pr directory subplugins any_executed r res"
  proof (rule phase_rounds.raw_induct [where P = ?P, OF _ assms(1)], intro allI impI)
    fix f pr directory subplugins any_executed r res pr' r'
    assume IH: "\<And>pr directory subplugins any_executed r res.
        f pr directory subplugins any_executed r = Some res \<Longrightarrow>
        ?P pr directory subplugins any_executed r res"
      and eq: "(case phase_round pr directory subplugins any_executed r of
          Break res \<Rightarrow> Some res
        | Checks any_executed' r' \<Rightarrow>
            if current_phase (issue r') \<noteq> directory then Some (Returned r')
            else if length any_executed' = length any_executed then Some (Returned r')
            else f pr directory subplugins any_executed' r') = Some res"
      and E: "same_effects pr pr'" and D: "described pr" and Q: "quiet_run r = quiet_run r'"
    note round = alike_phase_round [OF E D Q, of directory subplugins any_executed, symmetric]
    show "\<exists>res'. phase_rounds pr' directory subplugins any_executed r' = Some res'
           \<and> quiet_result res' = quiet_result res"
    proof (cases "phase_round pr directory subplugins any_executed r")
      case (Break res0)
      with eq have "res0 = res" by simp
      with Break round obtain res' where
        "phase_round pr' directory subplugins any_executed r' = Break res'"
        "quiet_result res' = quiet_result res"
        using quiet_round_Break by metis
      then show ?thesis
        using phase_rounds_break by blast
    next
      case (Checks any_executed' r1)
      with round obtain r1' where
        c': "phase_round pr' directory subplugins any_executed r' = Checks any_executed' r1'"
        and Q1: "quiet_run r1' = quiet_run r1"
        using quiet_round_Checks by metis
      then have i: "issue r1' = issue r1"
        by (simp add: quiet_run_eq)
      show ?thesis
      proof (cases "current_phase (issue r1) \<noteq> directory
          \<or> length any_executed' = length any_executed")
        case True
        with eq Checks have "res = Returned r1"
          by (auto split: if_splits)
        moreover have "phase_rounds pr' directory subplugins any_executed r' = Some (Returned r1')"
          using True c' i by (subst phase_rounds.simps) auto
        ultimately show ?thesis
          using Q1 by simp
      next
        case False
        with eq Checks have "f pr directory subplugins any_executed' r1 = Some res"
          by (auto split: if_splits)
        from IH [OF this, rule_format, OF E D Q1 [symmetric]] obtain res' where
          "phase_rounds pr' directory subplugins any_executed' r1' = Some res'"
          "quiet_result res' = quiet_result res"
          by blast
        moreover have "phase_rounds pr' directory subplugins any_executed r' =
            phase_rounds pr' directory subplugins any_executed' r1'"
          using False c' i by (intro phase_rounds_again) auto
        ultimately show ?thesis
          by simp
      qed
    qed
  qed
  with assms(2,3,4) show ?thesis by blast
qed

lemma alike_phase_rounds:
  assumes E: "same_effects pr pr'" and D: "described pr" and Q: "quiet_run r = quiet_run r'"
  shows "map_option quiet_result (phase_rounds pr directory subplugins any_executed r) =
         map_option quiet_result (phase_rounds pr' directory subplugins any_executed r')"
proof (cases "phase_rounds pr directory subplugins any_executed r")
  case (Some res)
  from alike_phase_rounds_Some [OF Some E D Q] Some show ?thesis
    by auto
next
  case None
  show ?thesis
  proof (cases "phase_rounds pr' directory subplugins any_executed r'")
    case None': None
    with None show ?thesis by simp
  next
    case (Some res')
    from alike_phase_rounds_Some [OF Some same_effects_sym [OF E] described_same [OF E D] Q [symmetric]] None
    show ?thesis by auto
  qed
qed

lemma quiet_add_auto_reward:
  "quiet_result (add_auto_reward pr res) = add_auto_reward pr (quiet_result res)"
  by (cases res) (simp_all add: quiet_run_def)

lemma add_auto_reward_same:
  "auto_reward pr' = auto_reward pr \<Longrightarrow> add_auto_reward pr' res = add_auto_reward pr res"
  by (cases res) simp_all

lemma alike_phase_invocation:
  assumes E: "same_effects pr pr'" and D: "described pr" and Q: "quiet_run r = quiet_run r'"
  shows "map_option quiet_result (phase_invocation pr directory r) =
         map_option quiet_result (phase_invocation pr' directory r')"
proof -
  let ?r0 = "\<lparr>issue = (issue r)\<lparr>current_phase := directory\<rparr>, log = log r @ [LogPhase directory]\<rparr>"
  let ?r0' = "\<lparr>issue = (issue r')\<lparr>current_phase := directory\<rparr>, log = log r' @ [LogPhase directory]\<rparr>"
  have Q0: "quiet_run ?r0 = quiet_run ?r0'"
    using Q by (simp add: quiet_run_eq)
  have pl: "plugins pr' = plugins pr" and ar: "auto_reward pr' = auto_reward pr"
    using E by (simp_all add: same_effects_def)
  show ?thesis
  proof (cases "map_of (plugins pr) directory")
    case None
    then show ?thesis
      using Q0 pl by (simp add: phase_invocation_def)
  next
    case (Some subplugins)
    have "map_option quiet_result (map_option (add_auto_reward pr)
          (phase_rounds pr directory subplugins [] ?r0)) =
        map_option (add_auto_reward pr) (map_option quiet_result
          (phase_rounds pr directory subplugins [] ?r0))"
      by (simp add: option.map_comp comp_def quiet_add_auto_reward)
    also have "\<dots> = map_option (add_auto_reward pr) (map_option quiet_result
          (phase_rounds pr' directory subplugins [] ?r0'))"
      by (simp only: alike_phase_rounds [OF E D Q0])
    also have "\<dots> = map_option quiet_result (map_option (add_auto_reward pr')
          (phase_rounds pr' directory subplugins [] ?r0'))"
      by (simp add: option.map_comp comp_def quiet_add_auto_reward add_auto_reward_same [OF ar])
    finally show ?thesis
      using Some pl by (simp add: phase_invocation_def)
  qed
qed

lemma alike_phases_loop_Some:
  assumes "phases_loop pr dirs current_dirno r = Some res"
    and "same_effects pr pr'" and "described pr" and "quiet_run r = quiet_run r'"
  shows "\<exists>res'. phases_loop pr' dirs current_dirno r' = Some res'
           \<and> quiet_result res' = quiet_result res"
proof -
  let ?P = "\<lambda>pr dirs current_dirno r res.
      \<forall>pr' r'. same_effects pr pr' \<longrightarrow> described pr \<longrightarrow> quiet_run r = quiet_run r' \<longrightarrow>
        (\<exists>res'. phases_loop pr' dirs current_dirno r' = Some res'
           \<and> quiet_result res' = quiet_result res)"
  have "?P pr dirs current_dirno r res"
  proof (rule phases_loop.raw_induct [where P = ?P, OF _ assms(1)], intro allI impI)
    fix f pr dirs current_dirno r res pr' r'
    assume IH: "\<And>pr dirs current_dirno r res.
        f pr dirs current_dirno r = Some res \<Longrightarrow> ?P pr dirs current_dirno r res"
      and eq: "(if current_dirno < length dirs then
        Option.bind (phase_invocation pr (dirs ! current_dirno) r)
          (\<lambda>res. case res of
             Raised e r1 \<Rightarrow> Some (Raised e r1)
           | Returned r1 \<Rightarrow>
               f pr dirs
                 (next_dirno dirs current_dirno (dirs ! current_dirno) (issue r1)) r1)
      else Some (Returned r)) = Some res"
      and E: "same_effects pr pr'" and D: "described pr" and Q: "quiet_run r = quiet_run r'"
    show "\<exists>res'. phases_loop pr' dirs current_dirno r' = Some res'
           \<and> quiet_result res' = quiet_result res"
    proof (cases "current_dirno < length dirs")
      case False
      with eq have "res = Returned r" by simp
      moreover have "phases_loop pr' dirs current_dirno r' = Some (Returned r')"
        using False by (subst phases_loop.simps) simp
      ultimately show ?thesis
        using Q by simp
    next
      case True
      with eq obtain res1 where inv: "phase_invocation pr (dirs ! current_dirno) r = Some res1"
        and rest: "(case res1 of
             Raised e r1 \<Rightarrow> Some (Raised e r1)
           | Returned r1 \<Rightarrow>
               f pr dirs
                 (next_dirno dirs current_dirno (dirs ! current_dirno) (issue r1)) r1) = Some res"
        by (auto simp: bind_eq_Some_conv)
      from alike_phase_invocation [OF E D Q, of "dirs ! current_dirno"] inv
      obtain res1' where inv': "phase_invocation pr' (dirs ! current_dirno) r' = Some res1'"
        and Q1: "quiet_result res1' = quiet_result res1"
        by (cases "phase_invocation pr' (dirs ! current_dirno) r'") auto
      show ?thesis
      proof (cases res1)
        case (Raised e r1)
        with rest have "res = res1" by simp
        moreover from Raised Q1 obtain r1' where "res1' = Raised e r1'"
          by (cases res1') simp_all
        then have "phases_loop pr' dirs current_dirno r' = Some res1'"
          using True inv' by (subst phases_loop.simps) simp
        ultimately show ?thesis
          using Q1 by simp
      next
        case (Returned r1)
        with rest have run: "f pr dirs
            (next_dirno dirs current_dirno (dirs ! current_dirno) (issue r1)) r1 = Some res"
          by simp
        from Returned Q1 obtain r1' where r1': "res1' = Returned r1'"
          and Q2: "quiet_run r1 = quiet_run r1'"
          by (cases res1') simp_all
        then have i: "issue r1' = issue r1"
          by (simp add: quiet_run_eq)
        from IH [OF run, rule_format, OF E D Q2] obtain res' where
          "phases_loop pr' dirs
             (next_dirno dirs current_dirno (dirs ! current_dirno) (issue r1)) r1' = Some res'"
          "quiet_result res' = quiet_result res"
          by blast
        moreover have "phases_loop pr' dirs current_dirno r' =
            phases_loop pr' dirs
              (next_dirno dirs current_dirno (dirs ! current_dirno) (issue r1)) r1'"
          using phases_loop_step [OF True inv' [unfolded r1']] i by simp
        ultimately show ?thesis
          by simp
      qed
    qed
  qed
  with assms(2,3,4) show ?thesis by blast
qed

lemma alike_phases_loop:
  assumes E: "same_effects pr pr'" and D: "described pr" and Q: "quiet_run r = quiet_run r'"
  shows "map_option quiet_result (phases_loop pr dirs current_dirno r) =
         map_option quiet_result (phases_loop pr' dirs current_dirno r')"
proof (cases "phases_loop pr dirs current_dirno r")
  case (Some res)
  from alike_phases_loop_Some [OF Some E D Q] Some show ?thesis
    by auto
next
  case None
  show ?thesis
  proof (cases "phases_loop pr' dirs current_dirno r'")
    case None': None
    with None show ?thesis by simp
  next
    case (Some res')
    from alike_phases_loop_Some [OF Some same_effects_sym [OF E] described_same [OF E D] Q [symmetric]] None
    show ?thesis by auto
  qed
qed

text \<open>
  In a described installation the handlers do what they are there for. A pass over such an
  installation and the pass over its calmed twin, in which no plugin ever raises, are the
  same up to the warnings in the log: both run for ever, or both end, with the same issue,
  the same log lines and calls otherwise, and the same outcome (both return, or both raise
  the same exception, which then is not one of a plugin). So an exception in
  \<^verbatim>\<open>test\<close> has the effect of a falsy answer (no candidates from that plugin, the
  other plugins are tested as before), an exception in \<^verbatim>\<open>process\<close> has the
  effect of a normal return (the pair counts as executed, the round and the phase go on as
  before), and the phases that follow are processed as if nothing had been raised.
\<close>

lemma exceptions_of_described_plugins_change_nothing_but_warnings:
  assumes "described pr"
  shows "map_option quiet_result (apply_all_plugins_on_value pr r) =
         map_option quiet_result (apply_all_plugins_on_value (calmed pr) r)"
proof -
  have "dirs_of (calmed pr) = dirs_of pr"
    by (simp add: dirs_of_def calmed_def)
  then show ?thesis
    using alike_phases_loop [OF same_effects_calmed assms refl,
        of "dirs_of pr" 0 "r\<lparr>issue := (issue r)\<lparr>reward := 0\<rparr>\<rparr>"]
    by (simp add: apply_all_plugins_on_value_def)
qed

lemma exceptions_of_described_plugins_change_nothing_but_warnings_in_demo:
  "described (demo\<lparr>plugin_at := (\<lambda>n. demo_plugin (if n = 8 then 3 else n))\<rparr>)
   \<and> map_option quiet_result
       (apply_all_plugins_on_value
          (calmed (demo\<lparr>plugin_at := (\<lambda>n. demo_plugin (if n = 8 then 3 else n))\<rparr>))
          demo_fresh) =
     Some (Returned
       \<lparr>issue = \<lparr>current_phase = ''30-cleanup-parallel'', reward = 3, payload = True\<rparr>,
        log = [LogPhase ''10-detect'', LogTestPlugins, CallTest 0, CallTest 1,
               LogExecuting 1 ''B'', CallProcess 1 ''B'', LogTestPlugins, CallTest 0,
               CallTest 1, LogNoPossible ''10-detect'',
               LogPhase ''20-remediate-alternative'', LogTestPlugins, CallTest 3,
               CallTest 5, CallTest 6, LogExecuting 5 ''B'', CallProcess 5 ''B'',
               LogPhase ''30-cleanup-parallel'', LogTestPlugins, CallTest 2,
               CallTest 4, LogExecuting 4 ''C'', CallProcess 4 ''C'',
               LogTestPlugins, CallTest 2, CallTest 4,
               LogNoPossible ''30-cleanup-parallel'']\<rparr>)"
proof -
  let ?pr = "demo\<lparr>plugin_at := (\<lambda>n. demo_plugin (if n = 8 then 3 else n))\<rparr>"
  have d: "described ?pr"
    by (simp add: described_def demo_plugin_def)
  have run: "apply_all_plugins_on_value ?pr demo_fresh =
     Some (Returned
       \<lparr>issue = \<lparr>current_phase = ''30-cleanup-parallel'', reward = 3, payload = True\<rparr>,
        log = [LogPhase ''10-detect'', LogTestPlugins, CallTest 0, CallTest 1,
               LogExecuting 1 ''B'', CallProcess 1 ''B'', LogTestPlugins, CallTest 0,
               CallTest 1, LogNoPossible ''10-detect'',
               LogPhase ''20-remediate-alternative'', LogTestPlugins, CallTest 3,
               WarnTest 3, CallTest 5, CallTest 6, LogExecuting 5 ''B'', CallProcess 5 ''B'',
               LogPhase ''30-cleanup-parallel'', LogTestPlugins, CallTest 2,
               CallTest 4, LogExecuting 4 ''C'', CallProcess 4 ''C'', WarnExecute 4 ''C'',
               LogTestPlugins, CallTest 2, CallTest 4,
               LogNoPossible ''30-cleanup-parallel'']\<rparr>)"
    by code_simp
  from exceptions_of_described_plugins_change_nothing_but_warnings [OF d, of demo_fresh, symmetric]
  have "map_option quiet_result (apply_all_plugins_on_value (calmed ?pr) demo_fresh) =
      map_option quiet_result (apply_all_plugins_on_value ?pr demo_fresh)" .
  with d show ?thesis
    unfolding run by (simp add: quiet_run_def)
qed

subsection \<open>The rounds of a default phase\<close>

lemma fold_remove1_distinct:
  "distinct xs \<Longrightarrow>
     distinct (fold remove1 ys xs) \<and> set (fold remove1 ys xs) = set xs - set ys"
proof (induction ys arbitrary: xs)
  case Nil
  then show ?case by simp
next
  case (Cons y ys)
  from Cons.prems have "distinct (remove1 y xs)" "set (remove1 y xs) = set xs - {y}"
    by simp_all
  with Cons.IH [of "remove1 y xs"] show ?case
    by auto
qed

lemma test_plugins_loop_plugins:
  assumes "test_plugins_loop pr ps passed r = Inr (tested, r1)"
  shows "fst ` set tested \<subseteq> fst ` set passed \<union> set ps"
  using assms
proof (induction ps arbitrary: passed r)
  case Nil
  then show ?case by auto
next
  case (Cons p ps)
  obtain res i where t: "test (plugin_at pr p) (issue r) = (res, i)"
    by (cases "test (plugin_at pr p) (issue r)")
  have d: "res = TestRaises \<longrightarrow> description (plugin_at pr p) \<noteq> None"
    using Cons.prems t by (auto split: option.splits)
  let ?r' = "\<lparr>issue = i, log = log r @ (if res = TestRaises then [CallTest p, WarnTest p]
                                         else [CallTest p])\<rparr>"
  from test_plugins_loop_step [OF t d, of ps passed] Cons.prems
  have "test_plugins_loop pr ps (passed @ map (Pair p) (offered res)) ?r' = Inr (tested, r1)"
    by simp
  from Cons.IH [OF this] show ?case
    by auto
qed

lemma test_plugins_on_value_plugins:
  assumes "test_plugins_on_value pr r subplugins = Inr (tested, r1)"
  shows "fst ` set tested \<subseteq> set subplugins"
  using assms test_plugins_loop_plugins [of pr subplugins "[]"
      "r\<lparr>log := log r @ [LogTestPlugins]\<rparr>" tested r1]
  by (simp add: test_plugins_on_value_def)

lemma default_phase_terminates:
  assumes fin: "finite U"
    and H: "\<forall>any_executed r' tested r1.
        round_begins pr directory subplugins r any_executed r'
        \<and> test_plugins_on_value pr r' subplugins = Inr (tested, r1) \<longrightarrow>
        distinct tested \<and> set tested \<subseteq> U"
    and np: "\<not> endswith directory ''-parallel''"
    and na: "\<not> endswith directory ''-alternative''"
  shows "round_begins pr directory subplugins r any_executed r' \<Longrightarrow>
     distinct any_executed \<Longrightarrow> set any_executed \<subseteq> U \<Longrightarrow>
     \<exists>res new k. phase_rounds pr directory subplugins any_executed r' = Some res
       \<and> acts (log (run_of res)) = acts (log r') @ new
       \<and> rounds_begun (log (run_of res)) = rounds_begun (log r') + k
       \<and> distinct (any_executed @ new) \<and> set new \<subseteq> U
       \<and> length new \<le> k \<and> k \<le> length new + 1
       \<and> (raised res \<longrightarrow> (\<exists>p\<in>set subplugins. description (plugin_at pr p) = None))"
proof (induction "card U - length any_executed" arbitrary: any_executed r' rule: less_induct)
  case less
  note begins = less.prems(1)
  show ?case
  proof (cases "test_plugins_on_value pr r' subplugins")
    case (Inl a)
    then obtain e r1 where t: "test_plugins_on_value pr r' subplugins = Inl (e, r1)"
      by (cases a) simp
    obtain evs where r1: "log r1 = log r' @ LogTestPlugins # evs" "acts evs = []"
      "rounds_begun evs = 0"
      using test_plugins_on_value_raised_log [OF t] by blast
    have bare: "\<exists>p\<in>set subplugins. description (plugin_at pr p) = None"
      using t test_plugins_loop_raised [of pr subplugins "[]"
          "r'\<lparr>log := log r' @ [LogTestPlugins]\<rparr>" e r1]
      by (simp add: test_plugins_on_value_def)
    have "phase_rounds pr directory subplugins any_executed r' = Some (Raised e r1)"
      using phase_round_test_raised [OF t] by (rule phase_rounds_break)
    moreover have "acts (log r1) = acts (log r') @ []"
      using r1 by simp
    moreover have "rounds_begun (log r1) = rounds_begun (log r') + 1"
      using r1 by (simp add: rounds_begun_def)
    ultimately show ?thesis
      using less.prems bare
      by (intro exI [of _ "Raised e r1"] exI [of _ "[]"] exI [of _ 1]) simp
  next
    case (Inr b)
    then obtain tested r1 where t: "test_plugins_on_value pr r' subplugins = Inr (tested, r1)"
      by (cases b) simp
    with H begins have tested: "distinct tested" "set tested \<subseteq> U"
      by blast+
    define possible where "possible = fold remove1 any_executed tested"
    have p: "fold remove1 any_executed tested = possible"
      by (simp add: possible_def)
    have possible: "set possible = set tested - set any_executed"
      using fold_remove1_distinct [OF tested(1), of any_executed] by (simp add: possible_def)
    obtain evs where r1: "log r1 = log r' @ LogTestPlugins # evs" "acts evs = []"
      "rounds_begun evs = 0"
      using test_plugins_on_value_log [OF t] by blast
    show ?thesis
    proof (cases "possible = []")
      case True
      let ?res = "r1\<lparr>log := log r1 @ [LogNoPossible directory]\<rparr>"
      have "phase_rounds pr directory subplugins any_executed r' = Some (Returned ?res)"
        using empty_phase [OF t p [unfolded True]] .
      moreover have "acts (log ?res) = acts (log r') @ []"
        using r1 by simp
      moreover have "rounds_begun (log ?res) = rounds_begun (log r') + 1"
        using r1 by (simp add: rounds_begun_def)
      ultimately show ?thesis
        using less.prems
        by (intro exI [of _ "Returned ?res"] exI [of _ "[]"] exI [of _ 1]) simp
    next
      case False
      define c where "c = last possible"
      from False have "c \<in> set possible"
        by (simp add: c_def)
      with possible tested(2) have c: "c \<in> U" "c \<notin> set any_executed" "c \<in> set tested"
        by auto
      note round = phase_round_default [OF np na t p False, folded c_def]
      show ?thesis
      proof (cases "execute_plugin_with_context pr r1 (fst c) (snd c)")
        case (Raised e r2)
        from execute_raised [OF Raised]
        have e: "r2 = r1" "description (plugin_at pr (fst c)) = None"
          by simp_all
        from c(3) test_plugins_on_value_plugins [OF t] have "fst c \<in> set subplugins"
          by auto
        with e(2) have bare: "\<exists>p\<in>set subplugins. description (plugin_at pr p) = None"
          by blast
        have "phase_round pr directory subplugins any_executed r' = Break (Raised e r1)"
          using round Raised e(1) by simp
        then have "phase_rounds pr directory subplugins any_executed r' = Some (Raised e r1)"
          by (rule phase_rounds_break)
        moreover have "acts (log r1) = acts (log r') @ []"
          using r1 by simp
        moreover have "rounds_begun (log r1) = rounds_begun (log r') + 1"
          using r1 by (simp add: rounds_begun_def)
        ultimately show ?thesis
          using less.prems bare
          by (intro exI [of _ "Raised e r1"] exI [of _ "[]"] exI [of _ 1]) simp
      next
        case (Returned r2)
        have checks: "phase_round pr directory subplugins any_executed r' =
            Checks (any_executed @ [c]) r2"
          using round Returned by simp
        obtain evs2 where "log r2 = log r1 @ evs2" "acts evs2 = [(fst c, snd c)]"
          "list_all is_execution evs2"
          using execute_returned [OF Returned] by blast
        then have r2: "acts (log r2) = acts (log r') @ [c]"
          "rounds_begun (log r2) = rounds_begun (log r') + 1"
          using r1 is_execution_quiet [of evs2] by (simp_all add: rounds_begun_def)
        have d: "distinct (any_executed @ [c])" "set (any_executed @ [c]) \<subseteq> U"
          using less.prems c by simp_all
        show ?thesis
        proof (cases "current_phase (issue r2) \<noteq> directory")
          case True
          have "phase_rounds pr directory subplugins any_executed r' = Some (Returned r2)"
            using phase_rounds_jump [OF checks True] .
          then show ?thesis
            using r2 d c(1)
            by (intro exI [of _ "Returned r2"] exI [of _ "[c]"] exI [of _ 1]) simp
        next
          case False
          then have same: "current_phase (issue r2) = directory"
            by simp
          have again: "phase_rounds pr directory subplugins any_executed r' =
              phase_rounds pr directory subplugins (any_executed @ [c]) r2"
            using phase_rounds_again [OF checks same] by simp
          have begins': "round_begins pr directory subplugins r (any_executed @ [c]) r2"
            using begins checks same by (rule round_begins.another) simp
          have "length (any_executed @ [c]) = card (set (any_executed @ [c]))"
            using d(1) by (simp only: distinct_card)
          also have "\<dots> \<le> card U"
            using fin d(2) by (rule card_mono)
          finally have "card U - length (any_executed @ [c]) < card U - length any_executed"
            by simp
          from less.hyps [OF this begins' d] obtain res new k where
            IH: "phase_rounds pr directory subplugins (any_executed @ [c]) r2 = Some res"
              "acts (log (run_of res)) = acts (log r2) @ new"
              "rounds_begun (log (run_of res)) = rounds_begun (log r2) + k"
              "distinct ((any_executed @ [c]) @ new)" "set new \<subseteq> U"
              "length new \<le> k" "k \<le> length new + 1"
              "raised res \<longrightarrow> (\<exists>p\<in>set subplugins. description (plugin_at pr p) = None)"
            by blast
          show ?thesis
            using again IH r2 c(1)
            by (intro exI [of _ res] exI [of _ "c # new"] exI [of _ "Suc k"]) simp
        qed
      qed
    qed
  qed
qed

text \<open>
  Claim C8, as stated, fails: in the phase \<^verbatim>\<open>10-detect\<close> of \<open>demo\<close> three
  distinct pairs match in the first round, \<open>(0, A1)\<close>, \<open>(0, A2)\<close> and \<open>(1, B)\<close>. The
  round executes the last one, \<open>(1, B)\<close>, which raises the flag; after that \<open>Detect\<close>
  matches no more, and the second round finds nothing to execute. The invocation has two
  rounds and one execution, not three. And in a default phase with the plugin \<open>Twice\<close>
  alone, a single pair ever matches, \<open>(9, D)\<close>, which every test offers two times; it is
  executed in two rounds, and the invocation has three rounds.
\<close>

theorem default_phase_rounds_differ_from_pairs_matched:
  "test_plugins_on_value demo
          \<lparr>issue = \<lparr>current_phase = ''10-detect'', reward = 0, payload = False\<rparr>,
           log = [LogPhase ''10-detect'']\<rparr> [0, 1] =
     Inr ([(0, ''A1''), (0, ''A2''), (1, ''B'')],
          \<lparr>issue = \<lparr>current_phase = ''10-detect'', reward = 0, payload = False\<rparr>,
           log = [LogPhase ''10-detect'', LogTestPlugins, CallTest 0, CallTest 1]\<rparr>)
   \<and> phase_invocation demo ''10-detect'' demo_fresh =
     Some (Returned
       \<lparr>issue = \<lparr>current_phase = ''10-detect'', reward = 1, payload = True\<rparr>,
        log = [LogPhase ''10-detect'', LogTestPlugins, CallTest 0, CallTest 1,
               LogExecuting 1 ''B'', CallProcess 1 ''B'', LogTestPlugins, CallTest 0,
               CallTest 1, LogNoPossible ''10-detect'']\<rparr>)
   \<and> rounds_begun
       [LogPhase ''10-detect'', LogTestPlugins, CallTest 0, CallTest 1,
        LogExecuting 1 ''B'' :: string event, CallProcess 1 ''B'', LogTestPlugins, CallTest 0,
        CallTest 1, LogNoPossible ''10-detect''] = 2
   \<and> phase_invocation (demo\<lparr>plugins := [(''10-detect'', [9])]\<rparr>) ''10-detect'' demo_fresh =
     Some (Returned
       \<lparr>issue = \<lparr>current_phase = ''10-detect'', reward = 1, payload = False\<rparr>,
        log = [LogPhase ''10-detect'', LogTestPlugins, CallTest 9,
               LogExecuting 9 ''D'', CallProcess 9 ''D'', LogTestPlugins, CallTest 9,
               LogExecuting 9 ''D'', CallProcess 9 ''D'', LogTestPlugins, CallTest 9,
               LogNoPossible ''10-detect'']\<rparr>)
   \<and> rounds_begun
       [LogPhase ''10-detect'', LogTestPlugins, CallTest 9,
        LogExecuting 9 ''D'' :: string event, CallProcess 9 ''D'', LogTestPlugins, CallTest 9,
        LogExecuting 9 ''D'', CallProcess 9 ''D'', LogTestPlugins, CallTest 9,
        LogNoPossible ''10-detect''] = 3"
  by code_simp

text \<open>
  Claim C8, amended. When the candidate sequences that the rounds of an invocation of a
  default phase build are free of duplicates and drawn from one finite set of pairs, the
  invocation terminates. Every round executes exactly one pair that was not executed before
  in the invocation, except that the last round may execute nothing; so the number of rounds
  is the number of pairs executed or one more, and the number of pairs executed is at most
  the size of that set. It can be smaller than the number of pairs that matched. The
  invocation returns, unless a plugin of the phase has no description.
\<close>

theorem default_phase_ends_within_the_pairs_that_match:
  assumes "finite U"
    and "\<forall>any_executed r' tested r1.
        round_begins pr directory subplugins r any_executed r'
        \<and> test_plugins_on_value pr r' subplugins = Inr (tested, r1) \<longrightarrow>
        distinct tested \<and> set tested \<subseteq> U"
    and "\<not> endswith directory ''-parallel''"
    and "\<not> endswith directory ''-alternative''"
  shows "\<exists>res new k. phase_rounds pr directory subplugins [] r = Some res
       \<and> acts (log (run_of res)) = acts (log r) @ new
       \<and> rounds_begun (log (run_of res)) = rounds_begun (log r) + k
       \<and> distinct new \<and> set new \<subseteq> U \<and> length new \<le> card U
       \<and> length new \<le> k \<and> k \<le> length new + 1
       \<and> (raised res \<longrightarrow> (\<exists>p\<in>set subplugins. description (plugin_at pr p) = None))"
proof -
  have "round_begins pr directory subplugins r [] r"
    by (rule round_begins.first)
  from default_phase_terminates [OF assms this] obtain res new k where
    t: "phase_rounds pr directory subplugins [] r = Some res"
      "acts (log (run_of res)) = acts (log r) @ new"
      "rounds_begun (log (run_of res)) = rounds_begun (log r) + k"
      "distinct new" "set new \<subseteq> U" "length new \<le> k" "k \<le> length new + 1"
      "raised res \<longrightarrow> (\<exists>p\<in>set subplugins. description (plugin_at pr p) = None)"
    by auto
  have "length new = card (set new)"
    using t(4) by (simp only: distinct_card)
  also have "\<dots> \<le> card U"
    using assms(1) t(5) by (rule card_mono)
  finally have "length new \<le> card U" .
  with t show ?thesis
    by blast
qed

theorem default_phase_ends_within_the_pairs_that_match_witness:
  "\<exists>res new k. phase_rounds demo ''10-detect'' [7, 1] []
        \<lparr>issue = \<lparr>current_phase = ''10-detect'', reward = 0, payload = False\<rparr>,
         log = [LogPhase ''10-detect'']\<rparr> = Some res
     \<and> acts (log (run_of res)) = new \<and> rounds_begun (log (run_of res)) = k
     \<and> distinct new \<and> length new \<le> 2 \<and> length new \<le> k \<and> k \<le> length new + 1
     \<and> \<not> raised res"
proof -
  let ?r = "\<lparr>issue = \<lparr>current_phase = ''10-detect'', reward = 0, payload = False\<rparr>,
         log = [LogPhase ''10-detect'']\<rparr> :: (bool, string) run"
  let ?U = "{(7::nat, ''10-detect''), (1, ''B'')}"
  have a: "finite ?U"
    by simp
  have here: "current_phase (issue r') = ''10-detect''"
    if "round_begins demo ''10-detect'' [7, 1] ?r any_executed r'" for any_executed r'
    using that by cases simp_all
  have b: "\<forall>any_executed r' tested r1.
      round_begins demo ''10-detect'' [7, 1] ?r any_executed r'
      \<and> test_plugins_on_value demo r' [7, 1] = Inr (tested, r1) \<longrightarrow>
      distinct tested \<and> set tested \<subseteq> ?U"
  proof (intro allI impI, elim conjE)
    fix any_executed r' tested r1
    assume "round_begins demo ''10-detect'' [7, 1] ?r any_executed r'"
      and "test_plugins_on_value demo r' [7, 1] = Inr (tested, r1)"
    with here [of any_executed r'] show "distinct tested \<and> set tested \<subseteq> ?U"
      by (auto simp: test_plugins_on_value_def demo_def demo_plugin_def)
  qed
  have c: "\<not> endswith ''10-detect'' ''-parallel''"
    by (simp add: endswith_def)
  have d: "\<not> endswith ''10-detect'' ''-alternative''"
    by (simp add: endswith_def)
  have e: "card ?U = 2"
    by simp
  have g: "description (plugin_at demo 7) \<noteq> None" "description (plugin_at demo 1) \<noteq> None"
    by (simp_all add: demo_def demo_plugin_def)
  from default_phase_ends_within_the_pairs_that_match [OF a b c d]
  obtain res where "\<exists>new k. phase_rounds demo ''10-detect'' [7, 1] [] ?r = Some res
       \<and> acts (log (run_of res)) = acts (log ?r) @ new
       \<and> rounds_begun (log (run_of res)) = rounds_begun (log ?r) + k
       \<and> distinct new \<and> set new \<subseteq> ?U \<and> length new \<le> card ?U
       \<and> length new \<le> k \<and> k \<le> length new + 1
       \<and> (raised res \<longrightarrow> (\<exists>p\<in>set [7, 1]. description (plugin_at demo p) = None))" ..
  then obtain new where "\<exists>k. phase_rounds demo ''10-detect'' [7, 1] [] ?r = Some res
       \<and> acts (log (run_of res)) = acts (log ?r) @ new
       \<and> rounds_begun (log (run_of res)) = rounds_begun (log ?r) + k
       \<and> distinct new \<and> set new \<subseteq> ?U \<and> length new \<le> card ?U
       \<and> length new \<le> k \<and> k \<le> length new + 1
       \<and> (raised res \<longrightarrow> (\<exists>p\<in>set [7, 1]. description (plugin_at demo p) = None))" ..
  then obtain k where k: "phase_rounds demo ''10-detect'' [7, 1] [] ?r = Some res
       \<and> acts (log (run_of res)) = acts (log ?r) @ new
       \<and> rounds_begun (log (run_of res)) = rounds_begun (log ?r) + k
       \<and> distinct new \<and> set new \<subseteq> ?U \<and> length new \<le> card ?U
       \<and> length new \<le> k \<and> k \<le> length new + 1
       \<and> (raised res \<longrightarrow> (\<exists>p\<in>set [7, 1]. description (plugin_at demo p) = None))" ..
  have "\<not> raised res"
    using k g by auto
  with k show ?thesis
    unfolding e by (intro exI [of _ res] exI [of _ new] exI [of _ k]) (simp add: rounds_begun_def)
qed

end
